theory Spec2Isabelle
  imports Complex_Main
begin

section \<open>Geometry primitives\<close>

text \<open>
  The perspective-mapping core of OpenVisionMatrix (packages/renderer, packages/core).
  A TypeScript \<open>number\<close> is modelled as a real number: every arithmetic operation of
  the source is taken exactly, so rounding, overflow, infinities and NaN of IEEE-754
  doubles are outside this model.  Comparisons (\<open>===\<close>, \<open><=\<close>, \<open>Math.abs\<close>) are the
  ones of the reals.  The rounding of doubles is modelled separately, in the section on
  double-precision arithmetic, for the quad utilities whose properties are equalities
  between a computed quad or point and a given one.
\<close>

type_synonym number = real

text \<open>\<open>type Point2D = { x: number; y: number }\<close>\<close>

record Point2D =
  x :: number
  y :: number

text \<open>\<open>type Quad = [Point2D, Point2D, Point2D, Point2D]\<close>: a fixed 4-tuple.\<close>

type_synonym Quad = "Point2D \<times> Point2D \<times> Point2D \<times> Point2D"

text \<open>The corners of a quad as the array the source iterates over, and \<open>quad[i]\<close>.\<close>

fun quad_list :: "Quad \<Rightarrow> Point2D list" where
  "quad_list (p0, p1, p2, p3) = [p0, p1, p2, p3]"

definition quad_at :: "Quad \<Rightarrow> nat \<Rightarrow> Point2D" where
  "quad_at q i = quad_list q ! i"

text \<open>\<open>Matrix3x3\<close>: a 9-tuple in row-major order; \<open>Matrix4x4\<close>: a 16-tuple.\<close>

datatype Matrix3x3 =
  Matrix3x3 number number number number number number number number number

datatype Matrix4x4 =
  Matrix4x4 number number number number number number number number
            number number number number number number number number


fun m4_list :: "Matrix4x4 \<Rightarrow> number list" where
  "m4_list (Matrix4x4 a0 a1 a2 a3 a4 a5 a6 a7 a8 a9 a10 a11 a12 a13 a14 a15) =
     [a0, a1, a2, a3, a4, a5, a6, a7, a8, a9, a10, a11, a12, a13, a14, a15]"


definition m4_entry :: "Matrix4x4 \<Rightarrow> nat \<Rightarrow> nat \<Rightarrow> number" where
  "m4_entry M r c = m4_list M ! (4 * c + r)"

section \<open>Errors\<close>

text \<open>
  The source throws \<open>new Error(message)\<close>; a throwing function returns \<open>error + 'a\<close>
  with the error on the left.  The names of the error taxonomy stand for the messages
  the source throws.
\<close>

datatype error = Error string

definition InvalidDimensions :: error where
  "InvalidDimensions = Error ''Width and height must be positive.''"

definition InvalidQuad :: "string \<Rightarrow> error" where
  "InvalidQuad reason = Error (''Invalid quad: '' @ reason)"

definition SingularSystem :: error where
  "SingularSystem = Error ''Homography system is singular.''"

definition InternalConsistency :: error where
  "InternalConsistency = Error ''Homography sanity check failed.''"

definition DegenerateProjection :: error where
  "DegenerateProjection = Error ''Homography w is ~0 (degenerate transform)''"

definition DuplicatePoint :: string where
  "DuplicatePoint = ''Quad contains duplicate points.''"





section \<open>Quad validator (validate.ts)\<close>

definition DEFAULT_EPSILON :: number where
  "DEFAULT_EPSILON = 1 / 10 ^ 6"

text \<open>\<open>{ ok: true } | { ok: false; reason: string }\<close>\<close>

datatype validation = Ok | Rejected string

definition quadArea :: "Quad \<Rightarrow> number" where
  "quadArea quad =
     foldl (\<lambda>sum i.
        let p1 = quad_at quad i; p2 = quad_at quad ((i + 1) mod 4)
        in sum + (x p1 * y p2 - x p2 * y p1)) 0 [0..<4] / 2"

definition isClockwiseQuad :: "Quad \<Rightarrow> bool" where
  "isClockwiseQuad quad \<longleftrightarrow> quadArea quad > 0"

definition pointsEqual :: "Point2D \<Rightarrow> Point2D \<Rightarrow> bool" where
  "pointsEqual a b \<longleftrightarrow> x a = x b \<and> y a = y b"

definition cross :: "Point2D \<Rightarrow> Point2D \<Rightarrow> Point2D \<Rightarrow> number" where
  "cross a b c =
     (let abx = x b - x a; aby = y b - y a; acx = x c - x a; acy = y c - y a
      in abx * acy - aby * acx)"

text \<open>The nested iteration \<open>for i in 0..3, for j in i+1..3\<close>, returning at the first hit.\<close>

definition hasDuplicatePoints :: "Quad \<Rightarrow> bool" where
  "hasDuplicatePoints quad =
     list_ex (\<lambda>i. list_ex (\<lambda>j. pointsEqual (quad_at quad i) (quad_at quad j)) [i + 1..<4]) [0..<4]"

definition triplets :: "(nat \<times> nat \<times> nat) list" where
  "triplets = [(0, 1, 2), (0, 1, 3), (0, 2, 3), (1, 2, 3)]"

definition hasCollinearTriplet :: "Quad \<Rightarrow> number \<Rightarrow> bool" where
  "hasCollinearTriplet quad epsilon =
     list_ex (\<lambda>(i, j, k). \<bar>cross (quad_at quad i) (quad_at quad j) (quad_at quad k)\<bar> \<le> epsilon)
       triplets"

definition segmentsIntersect ::
  "Point2D \<Rightarrow> Point2D \<Rightarrow> Point2D \<Rightarrow> Point2D \<Rightarrow> number \<Rightarrow> bool" where
  "segmentsIntersect a b c d epsilon =
     (let ab = cross a b c; ab2 = cross a b d; cd = cross c d a; cd2 = cross c d b
      in if \<bar>ab\<bar> \<le> epsilon \<and> \<bar>ab2\<bar> \<le> epsilon \<and> \<bar>cd\<bar> \<le> epsilon \<and> \<bar>cd2\<bar> \<le> epsilon
         then False
         else if (ab > epsilon \<and> ab2 < - epsilon) \<or> (ab < - epsilon \<and> ab2 > epsilon)
              then (cd > epsilon \<and> cd2 < - epsilon) \<or> (cd < - epsilon \<and> cd2 > epsilon)
              else False)"

definition isSelfIntersecting :: "Quad \<Rightarrow> number \<Rightarrow> bool" where
  "isSelfIntersecting quad epsilon \<longleftrightarrow>
     segmentsIntersect (quad_at quad 0) (quad_at quad 1) (quad_at quad 2) (quad_at quad 3) epsilon
     \<or> segmentsIntersect (quad_at quad 1) (quad_at quad 2) (quad_at quad 3) (quad_at quad 0) epsilon"

definition validateQuad :: "Quad \<Rightarrow> number \<Rightarrow> validation" where
  "validateQuad quad epsilon =
     (if hasDuplicatePoints quad then Rejected ''Quad contains duplicate points.''
      else if hasCollinearTriplet quad epsilon then Rejected ''Quad has collinear points.''
      else let area = quadArea quad in
        if \<bar>area\<bar> \<le> epsilon then Rejected ''Quad area is too small.''
        else if \<not> isClockwiseQuad quad then Rejected ''Quad must be clockwise.''
        else if isSelfIntersecting quad epsilon then Rejected ''Quad is self-intersecting.''
        else Ok)"

section \<open>Point projector and render-matrix embedder (homography.ts, cssMatrix.ts)\<close>

definition W_EPSILON :: number where
  "W_EPSILON = 1 / 10 ^ 12"

fun applyHomography :: "Matrix3x3 \<Rightarrow> Point2D \<Rightarrow> error + Point2D" where
  "applyHomography (Matrix3x3 H0 H1 H2 H3 H4 H5 H6 H7 H8) p =
     (let xPrime = H0 * x p + H1 * y p + H2;
          yPrime = H3 * x p + H4 * y p + H5;
          wPrime = H6 * x p + H7 * y p + H8
      in if \<bar>wPrime\<bar> < W_EPSILON
         then Inl (Error ''Homography w is ~0 (degenerate transform)'')
         else Inr \<lparr>x = xPrime / wPrime, y = yPrime / wPrime\<rparr>)"

fun homographyToCssMatrix3d :: "Matrix3x3 \<Rightarrow> Matrix4x4" where
  "homographyToCssMatrix3d (Matrix3x3 h00 h01 h02 h10 h11 h12 h20 h21 h22) =
     Matrix4x4 h00 h10 0 h20
               h01 h11 0 h21
               0 0 1 0
               h02 h12 0 h22"

section \<open>Homography solver (homography.ts)\<close>

text \<open>
  \<open>solveLinearSystem(A, b)\<close>: Gauss-Jordan elimination with partial pivoting, in place.
  \<open>A\<close> is an array of \<open>n\<close> rows and \<open>b\<close> an array of \<open>n\<close> numbers; the state of the
  loop is the pair of both arrays.  Every index the source reads is below \<open>n\<close>.
\<close>

type_synonym system = "number list list \<times> number list"

text \<open>The search \<open>for r = i + 1 .. n - 1\<close> for the row with the largest \<open>|A[r][i]|\<close>.\<close>

definition findPivot :: "number list list \<Rightarrow> nat \<Rightarrow> nat \<Rightarrow> nat \<times> number" where
  "findPivot A n i =
     foldl (\<lambda>(pivotRow, mx) r.
        let v = \<bar>A ! r ! i\<bar> in if v > mx then (r, v) else (pivotRow, mx))
       (i, \<bar>A ! i ! i\<bar>) [i + 1..<n]"

text \<open>\<open>for c = i .. n - 1: row[c] /= pivot\<close>\<close>

definition divideRow :: "number \<Rightarrow> nat \<Rightarrow> nat \<Rightarrow> number list \<Rightarrow> number list" where
  "divideRow pivot i n row = foldl (\<lambda>rw c. rw[c := rw ! c / pivot]) row [i..<n]"

text \<open>\<open>for c = i .. n - 1: row[c] -= factor * pivotRow[c]\<close>\<close>

definition subtractRow ::
  "number \<Rightarrow> number list \<Rightarrow> nat \<Rightarrow> nat \<Rightarrow> number list \<Rightarrow> number list" where
  "subtractRow factor prow i n row =
     foldl (\<lambda>rw c. rw[c := rw ! c - factor * prow ! c]) row [i..<n]"

text \<open>The elimination loop \<open>for r = 0 .. n - 1\<close>, skipping row \<open>i\<close> and zero factors.\<close>

definition eliminate :: "nat \<Rightarrow> nat \<Rightarrow> system \<Rightarrow> system" where
  "eliminate n i s =
     foldl (\<lambda>(A, b) r.
        if r = i then (A, b)
        else let factor = A ! r ! i in
          if factor = 0 then (A, b)
          else (A[r := subtractRow factor (A ! i) i n (A ! r)], b[r := b ! r - factor * b ! i]))
       s [0..<n]"

text \<open>One iteration of the outer loop, for column \<open>i\<close>.\<close>

definition solveStep :: "nat \<Rightarrow> nat \<Rightarrow> system \<Rightarrow> error + system" where
  "solveStep n i s =
     (case s of (A, b) \<Rightarrow>
        (case findPivot A n i of (pivotRow, mx) \<Rightarrow>
           if mx = 0 then Inl (Error ''Homography system is singular.'')
           else
             let (A1, b1) =
                   (if pivotRow \<noteq> i
                    then (A[i := A ! pivotRow, pivotRow := A ! i],
                          b[i := b ! pivotRow, pivotRow := b ! i])
                    else (A, b));
                 pivot = A1 ! i ! i;
                 A2 = A1[i := divideRow pivot i n (A1 ! i)];
                 b2 = b1[i := b1 ! i / pivot]
             in Inr (eliminate n i (A2, b2))))"

fun solveLoop :: "nat \<Rightarrow> nat list \<Rightarrow> system \<Rightarrow> error + system" where
  "solveLoop n [] s = Inr s"
| "solveLoop n (i # is) s =
     (case solveStep n i s of Inl e \<Rightarrow> Inl e | Inr s' \<Rightarrow> solveLoop n is s')"

definition solveLinearSystem :: "number list list \<Rightarrow> number list \<Rightarrow> error + number list" where
  "solveLinearSystem A b =
     (let n = length A in
      case solveLoop n [0..<n] (A, b) of Inl e \<Rightarrow> Inl e | Inr (A', b') \<Rightarrow> Inr b')"

text \<open>The canonical source rectangle \<open>src\<close>.\<close>

definition src_rect :: "number \<Rightarrow> number \<Rightarrow> Point2D list" where
  "src_rect width height =
     [\<lparr>x = 0, y = 0\<rparr>, \<lparr>x = width, y = 0\<rparr>, \<lparr>x = width, y = height\<rparr>, \<lparr>x = 0, y = height\<rparr>]"

fun sanityLoop :: "Point2D list \<Rightarrow> Quad \<Rightarrow> Matrix3x3 \<Rightarrow> nat list \<Rightarrow> error + unit" where
  "sanityLoop src quad H [] = Inr ()"
| "sanityLoop src quad H (i # is) =
     (case applyHomography H (src ! i) of
        Inl e \<Rightarrow> Inl e
      | Inr mapped \<Rightarrow>
          let target = quad_at quad i;
              dx = x mapped - x target;
              dy = y mapped - y target
          in if \<bar>dx\<bar> > DEFAULT_EPSILON \<or> \<bar>dy\<bar> > DEFAULT_EPSILON
             then Inl (Error ''Homography sanity check failed.'')
             else sanityLoop src quad H is)"

definition sanityCheckRectToQuad :: "number \<Rightarrow> number \<Rightarrow> Quad \<Rightarrow> Matrix3x3 \<Rightarrow> error + unit" where
  "sanityCheckRectToQuad width height quad H =
     sanityLoop (src_rect width height) quad H [0..<4]"

text \<open>
  The environment the solver consults:
  \<open>declare const process: { env?: { NODE_ENV?: string } } | undefined\<close>.
  It is an explicit argument of the model.
\<close>

record env =
  NODE_ENV :: "string option"

record process =
  env :: "env option"

definition isProd :: "process option \<Rightarrow> bool" where
  "isProd proc =
     (case proc of
        None \<Rightarrow> False
      | Some p \<Rightarrow> (case env p of None \<Rightarrow> False | Some e \<Rightarrow> NODE_ENV e = Some ''production''))"

text \<open>The loop pushing two equations per correspondence onto \<open>A\<close> and \<open>b\<close>.\<close>

definition buildSystem :: "Point2D list \<Rightarrow> Quad \<Rightarrow> system" where
  "buildSystem src quad =
     foldl (\<lambda>(A, b) i.
        let s = src ! i; t = quad_at quad i
        in (A @ [ [x s, y s, 1, 0, 0, 0, - x t * x s, - x t * y s] ]
              @ [ [0, 0, 0, x s, y s, 1, - y t * x s, - y t * y s] ],
            b @ [x t] @ [y t]))
       ([], []) [0..<4]"

definition computeHomographyRectToQuad ::
  "process option \<Rightarrow> number \<Rightarrow> number \<Rightarrow> Quad \<Rightarrow> error + Matrix3x3" where
  "computeHomographyRectToQuad proc width height quad =
     (if width \<le> 0 \<or> height \<le> 0 then Inl (Error ''Width and height must be positive.'')
      else case validateQuad quad DEFAULT_EPSILON of
        Rejected reason \<Rightarrow> Inl (Error (''Invalid quad: '' @ reason))
      | Ok \<Rightarrow>
         (case buildSystem (src_rect width height) quad of (A, b) \<Rightarrow>
            (case solveLinearSystem A b of
               Inl e \<Rightarrow> Inl e
             | Inr h \<Rightarrow>
                 let H = Matrix3x3 (h ! 0) (h ! 1) (h ! 2) (h ! 3) (h ! 4) (h ! 5) (h ! 6) (h ! 7) 1
                 in if \<not> isProd proc
                    then (case sanityCheckRectToQuad width height quad H of
                            Inl e \<Rightarrow> Inl e
                          | Inr _ \<Rightarrow> Inr H)
                    else Inr H)))"

section \<open>Quad utilities (quad.ts)\<close>



definition quadFromRect :: "number \<Rightarrow> number \<Rightarrow> number \<Rightarrow> number \<Rightarrow> Quad" where
  "quadFromRect x0 y0 width height =
     (\<lparr>x = x0, y = y0\<rparr>,
      \<lparr>x = x0 + width, y = y0\<rparr>,
      \<lparr>x = x0 + width, y = y0 + height\<rparr>,
      \<lparr>x = x0, y = y0 + height\<rparr>)"

definition getQuadCenter :: "Quad \<Rightarrow> Point2D" where
  "getQuadCenter quad =
     (let sum = foldl (\<lambda>acc point. \<lparr>x = x acc + x point, y = y acc + y point\<rparr>)
                  \<lparr>x = 0, y = 0\<rparr> (quad_list quad)
      in \<lparr>x = x sum / real (length (quad_list quad)),
          y = y sum / real (length (quad_list quad))\<rparr>)"

text \<open>\<open>quad.map(f) as Quad\<close>\<close>

fun quad_map :: "(Point2D \<Rightarrow> Point2D) \<Rightarrow> Quad \<Rightarrow> Quad" where
  "quad_map f (p0, p1, p2, p3) = (f p0, f p1, f p2, f p3)"

definition scaleQuad :: "Quad \<Rightarrow> number \<Rightarrow> number \<Rightarrow> Point2D option \<Rightarrow> Quad" where
  "scaleQuad quad scaleX scaleY origin =
     (let center = (case origin of Some c \<Rightarrow> c | None \<Rightarrow> getQuadCenter quad)
      in quad_map (\<lambda>point.
           \<lparr>x = x center + (x point - x center) * scaleX,
            y = y center + (y point - y center) * scaleY\<rparr>) quad)"




section \<open>Double-precision arithmetic\<close>

text \<open>
  The rounding that every arithmetic operation of the source performs on its exact result.
  \<open>binary64 v\<close> is the double nearest to the real \<open>v\<close>, a tie going to the neighbour with
  the even significand.  A double has a 53-bit significand, so in the binade
  \<open>2^e \<le> |v| < 2^(e+1)\<close> neighbouring doubles are \<open>2^(e-52)\<close> apart; below \<open>2^-1022\<close> the
  spacing stays at \<open>2^-1074\<close> (subnormal numbers).  A result of magnitude \<open>2^1024\<close> or more
  overflows to an infinity in the source; the reals have none, and no value used below comes
  near that range.
\<close>

definition pow2 :: "int \<Rightarrow> real" where
  "pow2 k = (if 0 \<le> k then 2 ^ nat k else 1 / 2 ^ nat (- k))"

definition round_half_even :: "real \<Rightarrow> int" where
  "round_half_even m =
     (let f = \<lfloor>m\<rfloor>; d = m - of_int f
      in if d < 1 / 2 then f else if 1 / 2 < d then f + 1 else if even f then f else f + 1)"

definition binary64 :: "real \<Rightarrow> real" where
  "binary64 v =
     (if v = 0 then 0
      else let e = max \<lfloor>log 2 \<bar>v\<bar>\<rfloor> (- 1022); ulp = pow2 (e - 52)
           in of_int (round_half_even (v / ulp)) * ulp)"

text \<open>The operators \<open>+\<close>, \<open>-\<close>, \<open>*\<close> and \<open>/\<close> of the source on doubles.\<close>

definition fadd :: "number \<Rightarrow> number \<Rightarrow> number" where
  "fadd a b = binary64 (a + b)"

definition fsub :: "number \<Rightarrow> number \<Rightarrow> number" where
  "fsub a b = binary64 (a - b)"

definition fmul :: "number \<Rightarrow> number \<Rightarrow> number" where
  "fmul a b = binary64 (a * b)"

definition fdiv :: "number \<Rightarrow> number \<Rightarrow> number" where
  "fdiv a b = binary64 (a / b)"

text \<open>
  \<open>quadFromRect\<close>, \<open>getQuadCenter\<close> and \<open>scaleQuad\<close> once more, with every operation rounded
  as the source executes it.  The arguments are doubles.
\<close>

definition quadFromRect_f64 :: "number \<Rightarrow> number \<Rightarrow> number \<Rightarrow> number \<Rightarrow> Quad" where
  "quadFromRect_f64 x0 y0 width height =
     (\<lparr>x = x0, y = y0\<rparr>,
      \<lparr>x = fadd x0 width, y = y0\<rparr>,
      \<lparr>x = fadd x0 width, y = fadd y0 height\<rparr>,
      \<lparr>x = x0, y = fadd y0 height\<rparr>)"

definition getQuadCenter_f64 :: "Quad \<Rightarrow> Point2D" where
  "getQuadCenter_f64 quad =
     (let sum = foldl (\<lambda>acc point. \<lparr>x = fadd (x acc) (x point), y = fadd (y acc) (y point)\<rparr>)
                  \<lparr>x = 0, y = 0\<rparr> (quad_list quad)
      in \<lparr>x = fdiv (x sum) (real (length (quad_list quad))),
          y = fdiv (y sum) (real (length (quad_list quad)))\<rparr>)"

definition scaleQuad_f64 :: "Quad \<Rightarrow> number \<Rightarrow> number \<Rightarrow> Point2D option \<Rightarrow> Quad" where
  "scaleQuad_f64 quad scaleX scaleY origin =
     (let center = (case origin of Some c \<Rightarrow> c | None \<Rightarrow> getQuadCenter_f64 quad)
      in quad_map (\<lambda>point.
           \<lparr>x = fadd (x center) (fmul (fsub (x point) (x center)) scaleX),
            y = fadd (y center) (fmul (fsub (y point) (y center)) scaleY)\<rparr>) quad)"

section \<open>Notions used to state the properties\<close>

subsection \<open>The compositor's use of the embedded matrix\<close>

text \<open>
  The consumer of \<open>homographyToCssMatrix3d\<close> is the CSS \<open>matrix3d\<close> transform, which is not
  part of the repository.  It multiplies the column-major 4x4 matrix with a homogeneous
  point and divides by the resulting w-component.
\<close>

definition m4_apply ::
  "Matrix4x4 \<Rightarrow> number \<times> number \<times> number \<times> number \<Rightarrow> number \<times> number \<times> number \<times> number" where
  "m4_apply M v =
     (case v of (v0, v1, v2, v3) \<Rightarrow>
        (m4_entry M 0 0 * v0 + m4_entry M 0 1 * v1 + m4_entry M 0 2 * v2 + m4_entry M 0 3 * v3,
         m4_entry M 1 0 * v0 + m4_entry M 1 1 * v1 + m4_entry M 1 2 * v2 + m4_entry M 1 3 * v3,
         m4_entry M 2 0 * v0 + m4_entry M 2 1 * v1 + m4_entry M 2 2 * v2 + m4_entry M 2 3 * v3,
         m4_entry M 3 0 * v0 + m4_entry M 3 1 * v1 + m4_entry M 3 2 * v2 + m4_entry M 3 3 * v3))"

definition perspective_divide :: "number \<times> number \<times> number \<times> number \<Rightarrow> Point2D" where
  "perspective_divide v = (case v of (v0, v1, v2, v3) \<Rightarrow> \<lparr>x = v0 / v3, y = v1 / v3\<rparr>)"

subsection \<open>The validator as the specification words it\<close>















subsection \<open>Rectangles and fit scale\<close>

definition quad_width :: "Quad \<Rightarrow> number" where
  "quad_width q = x (quad_at q 1) - x (quad_at q 0)"

definition quad_height :: "Quad \<Rightarrow> number" where
  "quad_height q = y (quad_at q 3) - y (quad_at q 0)"


subsection \<open>Linear systems\<close>

text \<open>
  A system \<open>(A, b)\<close> of \<open>n\<close> equations in \<open>n\<close> unknowns, its left-hand sides, its solutions,
  the kernel of its matrix, and the invariant of the elimination loop: the first \<open>k\<close>
  columns are unit vectors.
\<close>

definition wf_system :: "nat \<Rightarrow> system \<Rightarrow> bool" where
  "wf_system n s \<longleftrightarrow>
     length (fst s) = n \<and> length (snd s) = n \<and> (\<forall>r<n. length (fst s ! r) = n)"

definition lhs :: "nat \<Rightarrow> number list \<Rightarrow> (nat \<Rightarrow> number) \<Rightarrow> number" where
  "lhs n row v = (\<Sum>c<n. row ! c * v c)"

definition solves :: "nat \<Rightarrow> system \<Rightarrow> (nat \<Rightarrow> number) \<Rightarrow> bool" where
  "solves n s v \<longleftrightarrow> (\<forall>r<n. lhs n (fst s ! r) v = snd s ! r)"

definition kernel :: "nat \<Rightarrow> number list list \<Rightarrow> (nat \<Rightarrow> number) \<Rightarrow> bool" where
  "kernel n A v \<longleftrightarrow> (\<forall>r<n. lhs n (A ! r) v = 0)"

definition unit_cols :: "nat \<Rightarrow> nat \<Rightarrow> number list list \<Rightarrow> bool" where
  "unit_cols n k A \<longleftrightarrow> (\<forall>r<n. \<forall>c<k. A ! r ! c = (if r = c then 1 else 0))"

subsection \<open>Integer coordinates\<close>

text \<open>
  A coordinate that is an integer of magnitude below \<open>2^50\<close>, as pixel positions are, and a
  quad all of whose coordinates are such.
\<close>

definition pixel :: "number \<Rightarrow> bool" where
  "pixel v \<longleftrightarrow> v = of_int \<lfloor>v\<rfloor> \<and> \<bar>v\<bar> < 2 ^ 50"

definition pixel_quad :: "Quad \<Rightarrow> bool" where
  "pixel_quad quad \<longleftrightarrow> list_all (\<lambda>p. pixel (x p) \<and> pixel (y p)) (quad_list quad)"

subsection \<open>Concrete environments and inputs\<close>

definition production :: "process option" where
  "production = Some \<lparr>env = Some \<lparr>NODE_ENV = Some ''production''\<rparr>\<rparr>"

definition development :: "process option" where
  "development = Some \<lparr>env = Some \<lparr>NODE_ENV = Some ''development''\<rparr>\<rparr>"

text \<open>The scenario of the specification and the matrix the solver returns for it.\<close>

abbreviation scenario_quad :: Quad where
  "scenario_quad \<equiv>
     (\<lparr>x = 10, y = 10\<rparr>, \<lparr>x = 210, y = 10\<rparr>, \<lparr>x = 200, y = 110\<rparr>, \<lparr>x = 0, y = 100\<rparr>)"

abbreviation scenario_matrix :: Matrix3x3 where
  "scenario_matrix \<equiv>
     Matrix3x3 (120 / 67) (- 1 / 5) 10 (- 2 / 201) (1799 / 1005) 10 (- 1 / 1005) (- 1 / 10050) 1"



text \<open>
  Two quads with a corner coordinate that is not an integer: \<open>2^-60\<close>, and the double
  nearest to \<open>0.1\<close>, which is \<open>3602879701896397 / 2^55\<close>.
\<close>

abbreviation dyadic_quad :: Quad where
  "dyadic_quad \<equiv>
     (\<lparr>x = 1 / 2 ^ 60, y = 0\<rparr>, \<lparr>x = 4, y = 0\<rparr>, \<lparr>x = 4, y = 4\<rparr>, \<lparr>x = 0, y = 4\<rparr>)"

abbreviation tenth :: number where
  "tenth \<equiv> 3602879701896397 / 36028797018963968"

abbreviation tenth_quad :: Quad where
  "tenth_quad \<equiv>
     (\<lparr>x = tenth, y = 0\<rparr>, \<lparr>x = 1, y = 0\<rparr>, \<lparr>x = 1, y = 1\<rparr>, \<lparr>x = 0, y = 1\<rparr>)"

section \<open>Auxiliary facts\<close>

subsection \<open>Unfolding the iterations over the four corners\<close>

lemma upt4:
  "[0..<4] = [0, 1, 2, 3]" "[1..<4] = [1, 2, 3]" "[Suc 0..<4] = [1, 2, 3]"
  "[2..<4] = [2, 3]" "[Suc (Suc 0)..<4] = [2, 3]" "[3..<4] = [3]" "[4..<4] = []"
  by (simp_all add: upt_rec)


lemma quad_at_simps [simp]:
  "quad_at (p0, p1, p2, p3) 0 = p0"
  "quad_at (p0, p1, p2, p3) (Suc 0) = p1"
  "quad_at (p0, p1, p2, p3) 1 = p1"
  "quad_at (p0, p1, p2, p3) 2 = p2"
  "quad_at (p0, p1, p2, p3) 3 = p3"
  "quad_at (p0, p1, p2, p3) (Suc (Suc 0)) = p2"
  by (simp_all add: quad_at_def eval_nat_numeral)

lemma quadArea_unfold:
  "quadArea (p0, p1, p2, p3) =
     ((x p0 * y p1 - x p1 * y p0) + (x p1 * y p2 - x p2 * y p1)
      + (x p2 * y p3 - x p3 * y p2) + (x p3 * y p0 - x p0 * y p3)) / 2"
  by (simp add: quadArea_def Let_def upt4)


lemma pointsEqual_iff: "pointsEqual a b \<longleftrightarrow> a = b"
  by (auto simp add: pointsEqual_def)

lemma hasDuplicatePoints_unfold:
  "hasDuplicatePoints (p0, p1, p2, p3) \<longleftrightarrow>
     p0 = p1 \<or> p0 = p2 \<or> p0 = p3 \<or> p1 = p2 \<or> p1 = p3 \<or> p2 = p3"
  by (simp add: hasDuplicatePoints_def pointsEqual_iff upt4) 


lemma hasCollinearTriplet_unfold:
  "hasCollinearTriplet (p0, p1, p2, p3) eps \<longleftrightarrow>
     \<bar>cross p0 p1 p2\<bar> \<le> eps \<or> \<bar>cross p0 p1 p3\<bar> \<le> eps \<or> \<bar>cross p0 p2 p3\<bar> \<le> eps \<or> \<bar>cross p1 p2 p3\<bar> \<le> eps"
  by (simp add: hasCollinearTriplet_def triplets_def)



lemma segmentsIntersect_proper:
  "segmentsIntersect a b c d eps \<longleftrightarrow>
     ((cross a b c > eps \<and> cross a b d < - eps) \<or> (cross a b c < - eps \<and> cross a b d > eps)) \<and>
     ((cross c d a > eps \<and> cross c d b < - eps) \<or> (cross c d a < - eps \<and> cross c d b > eps))"
  by (auto simp add: segmentsIntersect_def Let_def)


lemma quadFromRect_sel [simp]:
  "quad_at (quadFromRect a b c d) 0 = \<lparr>x = a, y = b\<rparr>"
  "quad_at (quadFromRect a b c d) 1 = \<lparr>x = a + c, y = b\<rparr>"
  "quad_at (quadFromRect a b c d) 2 = \<lparr>x = a + c, y = b + d\<rparr>"
  "quad_at (quadFromRect a b c d) 3 = \<lparr>x = a, y = b + d\<rparr>"
  "quad_width (quadFromRect a b c d) = c"
  "quad_height (quadFromRect a b c d) = d"
  by (simp_all add: quadFromRect_def quad_width_def quad_height_def)

lemma validateQuad_Ok_iff:
  "validateQuad q eps = Ok \<longleftrightarrow>
     \<not> hasDuplicatePoints q \<and> \<not> hasCollinearTriplet q eps \<and> \<bar>quadArea q\<bar> > eps
     \<and> quadArea q > 0 \<and> \<not> isSelfIntersecting q eps"
  by (auto simp add: validateQuad_def Let_def isClockwiseQuad_def)

subsection \<open>The five checks\<close>











subsection \<open>The inner iterations of the solver\<close>

lemma foldl_update_range_length:
  "length (foldl (\<lambda>rw c. rw[c := f c (rw ! c)]) row [i..<n]) = length row"
  by (induction n) simp_all

lemma foldl_update_range_nth:
  "c < length row \<Longrightarrow>
     foldl (\<lambda>rw c. rw[c := f c (rw ! c)]) row [i..<n] ! c
       = (if i \<le> c \<and> c < n then f c (row ! c) else row ! c)"
proof (induction n arbitrary: c)
  case 0
  then show ?case by simp
next
  case (Suc n)
  show ?case
  proof (cases "i \<le> n")
    case True
    show ?thesis
    proof (cases "c = n")
      case ceq: True
      with Suc.prems Suc.IH[of n] True show ?thesis
        by (simp add: foldl_update_range_length)
    next
      case cne: False
      with Suc.prems Suc.IH[of c] True show ?thesis
        by (simp add: foldl_update_range_length)
    qed
  next
    case False
    then show ?thesis by auto
  qed
qed

lemma divideRow_length [simp]: "length (divideRow p i n row) = length row"
  unfolding divideRow_def by (rule foldl_update_range_length[where f = "\<lambda>c v. v / p"])

lemma divideRow_nth:
  "c < length row \<Longrightarrow> divideRow p i n row ! c = (if i \<le> c \<and> c < n then row ! c / p else row ! c)"
  unfolding divideRow_def by (rule foldl_update_range_nth[where f = "\<lambda>c v. v / p"])

lemma subtractRow_length [simp]: "length (subtractRow f prow i n row) = length row"
  unfolding subtractRow_def
  by (rule foldl_update_range_length[where f = "\<lambda>c v. v - f * prow ! c"])

lemma subtractRow_nth:
  "c < length row \<Longrightarrow>
     subtractRow f prow i n row ! c = (if i \<le> c \<and> c < n then row ! c - f * prow ! c else row ! c)"
  unfolding subtractRow_def
  by (rule foldl_update_range_nth[where f = "\<lambda>c v. v - f * prow ! c"])

lemma findPivot_aux:
  fixes A :: "number list list"
  assumes "foldl (\<lambda>(pivotRow, mx) r. let v = \<bar>A ! r ! i\<bar> in if v > mx then (r, v) else (pivotRow, mx))
       (i, \<bar>A ! i ! i\<bar>) [Suc i..<k] = (p, m)"
  shows "i \<le> p \<and> p < max (Suc i) k \<and> m = \<bar>A ! p ! i\<bar>
         \<and> (\<forall>r. i \<le> r \<and> r < max (Suc i) k \<longrightarrow> \<bar>A ! r ! i\<bar> \<le> m)"
  using assms
proof (induction k arbitrary: p m)
  case 0
  then have "p = i" "m = \<bar>A ! i ! i\<bar>" by auto
  then show ?case by (auto simp add: less_Suc_eq_le dest: le_antisym)
next
  case (Suc k)
  let ?step = "\<lambda>(pivotRow, mx) r. let v = \<bar>A ! r ! i\<bar> in if v > mx then (r, v) else (pivotRow, mx)"
  show ?case
  proof (cases "Suc i \<le> k")
    case False
    then have e: "[Suc i..<Suc k] = []" "[Suc i..<k] = []" by simp_all
    from False have mx: "max (Suc i) (Suc k) = max (Suc i) k" by simp
    from Suc.prems have "foldl ?step (i, \<bar>A ! i ! i\<bar>) [Suc i..<k] = (p, m)"
      unfolding e .
    from Suc.IH[OF this] show ?thesis unfolding mx .
  next
    case True
    obtain p' m' where st: "foldl ?step (i, \<bar>A ! i ! i\<bar>) [Suc i..<k] = (p', m')"
      by (cases "foldl ?step (i, \<bar>A ! i ! i\<bar>) [Suc i..<k]") 
    from True have mx: "max (Suc i) (Suc k) = Suc k" "max (Suc i) k = k" by simp_all
    from Suc.IH[OF st] have ih:
      "i \<le> p'" "p' < k" "m' = \<bar>A ! p' ! i\<bar>"
      "\<And>r. i \<le> r \<Longrightarrow> r < k \<Longrightarrow> \<bar>A ! r ! i\<bar> \<le> m'"
      unfolding mx by auto
    from True have "[Suc i..<Suc k] = [Suc i..<k] @ [k]" by simp
    with Suc.prems st
    have pm: "(if \<bar>A ! k ! i\<bar> > m' then (k, \<bar>A ! k ! i\<bar>) else (p', m')) = (p, m)"
      by (simp add: Let_def)
    show ?thesis
    proof (cases "\<bar>A ! k ! i\<bar> > m'")
      case gt: True
      with pm have pk: "p = k" "m = \<bar>A ! k ! i\<bar>" by auto
      have "\<bar>A ! r ! i\<bar> \<le> m" if "i \<le> r" "r < Suc k" for r
      proof (cases "r = k")
        case True
        with pk show ?thesis by simp
      next
        case False
        with that have "r < k" by simp
        from ih(4)[OF that(1) this] gt pk show ?thesis by simp
      qed
      with pk True show ?thesis unfolding mx by simp
    next
      case ngt: False
      with pm have pk: "p = p'" "m = m'" by auto
      have "\<bar>A ! r ! i\<bar> \<le> m" if "i \<le> r" "r < Suc k" for r
      proof (cases "r = k")
        case True
        with pk ngt show ?thesis by simp
      next
        case False
        with that have "r < k" by simp
        from ih(4)[OF that(1) this] pk show ?thesis by simp
      qed
      with pk ih show ?thesis unfolding mx by simp
    qed
  qed
qed

lemma findPivot_props:
  fixes A :: "number list list"
  assumes "findPivot A n i = (p, m)" "i < n"
  shows "i \<le> p" "p < n" "m = \<bar>A ! p ! i\<bar>" "\<And>r. i \<le> r \<Longrightarrow> r < n \<Longrightarrow> \<bar>A ! r ! i\<bar> \<le> m"
proof -
  from assms(2) have mx: "max (Suc i) n = n" by simp
  have fold: "foldl (\<lambda>(pivotRow, mx) r. let v = \<bar>A ! r ! i\<bar> in if v > mx then (r, v) else (pivotRow, mx))
       (i, \<bar>A ! i ! i\<bar>) [Suc i..<n] = (p, m)"
    using assms(1) unfolding findPivot_def by simp
  note * = findPivot_aux[OF fold, unfolded mx]
  from * show "i \<le> p" "p < n" "m = \<bar>A ! p ! i\<bar>" by blast+
  from * show "\<And>r. i \<le> r \<Longrightarrow> r < n \<Longrightarrow> \<bar>A ! r ! i\<bar> \<le> m" by blast
qed

lemma subtractRow_zero: "subtractRow 0 prow i n row = row"
  by (rule nth_equalityI) (simp_all add: subtractRow_nth)

lemma eliminate_aux:
  assumes "length A = n" "length b = n" "i < n" "k \<le> n"
  shows "foldl (\<lambda>(A, b) r.
        if r = i then (A, b)
        else let factor = A ! r ! i in
          if factor = 0 then (A, b)
          else (A[r := subtractRow factor (A ! i) i n (A ! r)], b[r := b ! r - factor * b ! i]))
       (A, b) [0..<k]
     = (map (\<lambda>r. if r < k \<and> r \<noteq> i then subtractRow (A ! r ! i) (A ! i) i n (A ! r) else A ! r) [0..<n],
        map (\<lambda>r. if r < k \<and> r \<noteq> i then b ! r - A ! r ! i * b ! i else b ! r) [0..<n])"
  using assms(4)
proof (induction k)
  case 0
  have "map ((!) A) [0..<n] = A" "map ((!) b) [0..<n] = b"
    using assms(1,2) map_nth[of A] map_nth[of b] by simp_all
  then show ?case by simp
next
  case (Suc k)
  let ?A = "\<lambda>k. map (\<lambda>r. if r < k \<and> r \<noteq> i then subtractRow (A ! r ! i) (A ! i) i n (A ! r) else A ! r) [0..<n]"
  let ?b = "\<lambda>k. map (\<lambda>r. if r < k \<and> r \<noteq> i then b ! r - A ! r ! i * b ! i else b ! r) [0..<n]"
  from Suc.prems have kn: "k < n" by simp
  have Ak: "?A k ! k = A ! k" using kn by simp
  have Ai: "?A k ! i = A ! i" using assms(3) by simp
  have bk: "?b k ! k = b ! k" using kn by simp
  have bi: "?b k ! i = b ! i" using assms(3) by simp
  have A_upd: "(?A k)[k := subtractRow (A ! k ! i) (A ! i) i n (A ! k)] = ?A (Suc k)" if "k \<noteq> i"
    using that kn by (intro nth_equalityI) (auto simp add: nth_list_update less_Suc_eq)
  have b_upd: "(?b k)[k := b ! k - A ! k ! i * b ! i] = ?b (Suc k)" if "k \<noteq> i"
    using that kn by (intro nth_equalityI) (auto simp add: nth_list_update less_Suc_eq)
  have A_same: "?A k = ?A (Suc k)" if "k = i \<or> A ! k ! i = 0"
    using that kn by (intro nth_equalityI) (auto simp add: less_Suc_eq subtractRow_zero)
  have b_same: "?b k = ?b (Suc k)" if "k = i \<or> A ! k ! i = 0"
    using that kn by (intro nth_equalityI) (auto simp add: less_Suc_eq)
  from Suc.IH kn
  have "foldl (\<lambda>(A, b) r.
        if r = i then (A, b)
        else let factor = A ! r ! i in
          if factor = 0 then (A, b)
          else (A[r := subtractRow factor (A ! i) i n (A ! r)], b[r := b ! r - factor * b ! i]))
       (A, b) [0..<Suc k]
     = (if k = i then (?A k, ?b k)
        else let factor = ?A k ! k ! i in
          if factor = 0 then (?A k, ?b k)
          else ((?A k)[k := subtractRow factor (?A k ! i) i n (?A k ! k)],
                (?b k)[k := ?b k ! k - factor * ?b k ! i]))"
    by simp
  also have "\<dots> = (?A (Suc k), ?b (Suc k))"
    unfolding Ak Ai bk bi Let_def
    using A_upd b_upd A_same b_same by auto
  finally show ?case .
qed

lemma eliminate_eq:
  assumes "length A = n" "length b = n" "i < n"
  shows "eliminate n i (A, b)
     = (map (\<lambda>r. if r \<noteq> i then subtractRow (A ! r ! i) (A ! i) i n (A ! r) else A ! r) [0..<n],
        map (\<lambda>r. if r \<noteq> i then b ! r - A ! r ! i * b ! i else b ! r) [0..<n])"
  unfolding eliminate_def
  using eliminate_aux[OF assms, of n] by (simp cong: map_cong)

subsection \<open>One elimination step preserves the solutions\<close>

lemma solveStep_char:
  assumes wf: "wf_system n (A, b)" and i: "i < n" and uc: "unit_cols n i A"
    and fp: "findPivot A n i = (p, m)" and m: "m \<noteq> 0"
  shows "\<exists>A' b'. solveStep n i (A, b) = Inr (A', b') \<and> wf_system n (A', b')
     \<and> (\<forall>c<n. A' ! i ! c = A ! p ! c / A ! p ! i)
     \<and> b' ! i = b ! p / A ! p ! i
     \<and> (\<forall>r<n. r \<noteq> i \<longrightarrow>
           (\<forall>c<n. A' ! r ! c = A ! (if r = p then i else r) ! c
                      - A ! (if r = p then i else r) ! i * (A ! p ! c / A ! p ! i))
           \<and> b' ! r = b ! (if r = p then i else r)
                      - A ! (if r = p then i else r) ! i * (b ! p / A ! p ! i))"
proof -
  from wf have lA: "length A = n" and lb: "length b = n" and lr: "\<And>r. r < n \<Longrightarrow> length (A ! r) = n"
    by (simp_all add: wf_system_def)
  note pp = findPivot_props[OF fp i]
  from pp have ip: "i \<le> p" and pn: "p < n" by simp_all
  define A1 where "A1 = (if p \<noteq> i then A[i := A ! p, p := A ! i] else A)"
  define b1 where "b1 = (if p \<noteq> i then b[i := b ! p, p := b ! i] else b)"
  define pivot where "pivot = A1 ! i ! i"
  define A2 where "A2 = A1[i := divideRow pivot i n (A1 ! i)]"
  define b2 where "b2 = b1[i := b1 ! i / pivot]"
  have lA1: "length A1 = n" and lb1: "length b1 = n"
    using lA lb by (simp_all add: A1_def b1_def)
  have A1i: "A1 ! i = A ! p" using lA i pn by (simp add: A1_def nth_list_update)
  have b1i: "b1 ! i = b ! p" using lb i pn by (simp add: b1_def nth_list_update)
  have A1r: "A1 ! r = A ! (if r = p then i else r)" if "r < n" "r \<noteq> i" for r
    using that lA i pn by (simp add: A1_def nth_list_update)
  have b1r: "b1 ! r = b ! (if r = p then i else r)" if "r < n" "r \<noteq> i" for r
    using that lb i pn by (simp add: b1_def nth_list_update)
  have piv: "pivot = A ! p ! i" by (simp add: pivot_def A1i)
  with pp(3) m have piv0: "pivot \<noteq> 0" by auto
  have lA2: "length A2 = n" and lb2: "length b2 = n"
    using lA1 lb1 by (simp_all add: A2_def b2_def)
  have A2i: "A2 ! i = divideRow pivot i n (A ! p)"
    using lA1 i by (simp add: A2_def A1i)
  have A2r: "A2 ! r = A ! (if r = p then i else r)" if "r < n" "r \<noteq> i" for r
    using that lA1 A1r[OF that] by (simp add: A2_def)
  have b2i: "b2 ! i = b ! p / pivot" using lb1 i by (simp add: b2_def b1i)
  have b2r: "b2 ! r = b ! (if r = p then i else r)" if "r < n" "r \<noteq> i" for r
    using that lb1 b1r[OF that] by (simp add: b2_def)
  define A' where "A' = map (\<lambda>r. if r \<noteq> i then subtractRow (A2 ! r ! i) (A2 ! i) i n (A2 ! r) else A2 ! r) [0..<n]"
  define b' where "b' = map (\<lambda>r. if r \<noteq> i then b2 ! r - A2 ! r ! i * b2 ! i else b2 ! r) [0..<n]"
  have "solveStep n i (A, b) = Inr (eliminate n i (A2, b2))"
    unfolding solveStep_def A2_def b2_def pivot_def A1_def b1_def
    using m fp by (simp add: Let_def)
  then have step: "solveStep n i (A, b) = Inr (A', b')"
    using eliminate_eq[OF lA2 lb2 i] by (simp add: A'_def b'_def)
  have zero_left: "A ! p ! c = 0" if "c < i" for c
  proof -
    from that ip have "p \<noteq> c" by simp
    with uc pn that show ?thesis by (simp add: unit_cols_def)
  qed
  have rowi: "A' ! i ! c = A ! p ! c / A ! p ! i" if "c < n" for c
  proof -
    have "A' ! i ! c = divideRow pivot i n (A ! p) ! c"
      using i by (simp add: A'_def A2i)
    also have "\<dots> = (if i \<le> c \<and> c < n then A ! p ! c / pivot else A ! p ! c)"
      using that lr[OF pn] by (simp add: divideRow_nth)
    also have "\<dots> = A ! p ! c / pivot"
      using that zero_left[of c] by (cases "i \<le> c") simp_all
    finally show ?thesis by (simp add: piv)
  qed
  have A2ii: "A2 ! i ! c = A ! p ! c / A ! p ! i" if "c < n" for c
    using rowi[OF that] i by (simp add: A'_def)
  have rowr: "A' ! r ! c = A ! (if r = p then i else r) ! c
                      - A ! (if r = p then i else r) ! i * (A ! p ! c / A ! p ! i)"
    if "r < n" "r \<noteq> i" "c < n" for r c
  proof -
    let ?q = "if r = p then i else r"
    have qn: "?q < n" using that i by simp
    have "A' ! r ! c = subtractRow (A ! ?q ! i) (A2 ! i) i n (A ! ?q) ! c"
      using that by (simp add: A'_def A2r)
    also have "\<dots> = (if i \<le> c \<and> c < n then A ! ?q ! c - A ! ?q ! i * A2 ! i ! c else A ! ?q ! c)"
      using that lr[OF qn] by (simp add: subtractRow_nth)
    also have "\<dots> = A ! ?q ! c - A ! ?q ! i * (A ! p ! c / A ! p ! i)"
      using that zero_left[of c] A2ii[of c] by (cases "i \<le> c") simp_all
    finally show ?thesis .
  qed
  have bi: "b' ! i = b ! p / A ! p ! i"
    using i by (simp add: b'_def b2i piv)
  have br: "b' ! r = b ! (if r = p then i else r)
                      - A ! (if r = p then i else r) ! i * (b ! p / A ! p ! i)"
    if "r < n" "r \<noteq> i" for r
    using that by (simp add: b'_def b2r A2r b2i piv)
  have wf': "wf_system n (A', b')"
  proof -
    have "length (A' ! r) = n" if "r < n" for r
    proof (cases "r = i")
      case True
      with that lr[OF pn] show ?thesis by (simp add: A'_def A2i)
    next
      case False
      with that lr[of "if r = p then i else r"] i show ?thesis
        by (simp add: A'_def A2r)
    qed
    then show ?thesis by (simp add: wf_system_def A'_def b'_def)
  qed
  from step wf' rowi rowr bi br show ?thesis by blast
qed

lemma row_ops_equiv:
  fixes L L' B B' :: "nat \<Rightarrow> number"
  assumes i: "i < n" and p: "p < n" and piv: "piv \<noteq> 0"
    and Li: "L' i = L p / piv" and Bi: "B' i = B p / piv"
    and Lr: "\<And>r. r < n \<Longrightarrow> r \<noteq> i \<Longrightarrow> L' r = L (if r = p then i else r) - f r * L' i"
    and Br: "\<And>r. r < n \<Longrightarrow> r \<noteq> i \<Longrightarrow> B' r = B (if r = p then i else r) - f r * B' i"
  shows "(\<forall>r<n. L' r = B' r) \<longleftrightarrow> (\<forall>r<n. L r = B r)"
proof
  assume old: "\<forall>r<n. L r = B r"
  show "\<forall>r<n. L' r = B' r"
  proof (intro allI impI)
    fix r assume r: "r < n"
    from old p have i_eq: "L' i = B' i" by (simp add: Li Bi)
    show "L' r = B' r"
    proof (cases "r = i")
      case True
      with i_eq show ?thesis by simp
    next
      case False
      from r i have "(if r = p then i else r) < n" by simp
      with old have "L (if r = p then i else r) = B (if r = p then i else r)" by blast
      with Lr[OF r False] Br[OF r False] i_eq show ?thesis by simp
    qed
  qed
next
  assume new: "\<forall>r<n. L' r = B' r"
  from new i have i_eq: "L' i = B' i" by blast
  with piv have Lp: "L p = B p" by (simp add: Li Bi)
  have sw: "L (if r = p then i else r) = B (if r = p then i else r)" if "r < n" "r \<noteq> i" for r
  proof -
    from new that have "L' r = B' r" by blast
    with Lr[OF that] Br[OF that] i_eq show ?thesis by simp
  qed
  show "\<forall>r<n. L r = B r"
  proof (intro allI impI)
    fix q assume q: "q < n"
    show "L q = B q"
    proof (cases "q = p")
      case True
      with Lp show ?thesis by simp
    next
      case qp: False
      show ?thesis
      proof (cases "q = i")
        case True
        with qp have "p \<noteq> i" by simp
        from sw[OF p this] True show ?thesis by simp
      next
        case False
        from sw[OF q False] qp show ?thesis by simp
      qed
    qed
  qed
qed

lemma solveStep_invariant:
  assumes wf: "wf_system n (A, b)" and i: "i < n" and uc: "unit_cols n i A"
    and fp: "findPivot A n i = (p, m)" and m: "m \<noteq> 0"
  shows "\<exists>s'. solveStep n i (A, b) = Inr s' \<and> wf_system n s' \<and> unit_cols n (Suc i) (fst s')
     \<and> (\<forall>v. solves n s' v \<longleftrightarrow> solves n (A, b) v)
     \<and> (\<forall>v. kernel n (fst s') v \<longleftrightarrow> kernel n A v)"
proof -
  note pp = findPivot_props[OF fp i]
  from pp have ip: "i \<le> p" and pn: "p < n" by simp_all
  from pp(3) m have piv0: "A ! p ! i \<noteq> 0" by auto
  from solveStep_char[OF assms] obtain A' b' where
    step: "solveStep n i (A, b) = Inr (A', b')" and wf': "wf_system n (A', b')"
    and rowi: "\<And>c. c < n \<Longrightarrow> A' ! i ! c = A ! p ! c / A ! p ! i"
    and bi: "b' ! i = b ! p / A ! p ! i"
    and rowr: "\<And>r c. r < n \<Longrightarrow> r \<noteq> i \<Longrightarrow> c < n \<Longrightarrow>
          A' ! r ! c = A ! (if r = p then i else r) ! c
                      - A ! (if r = p then i else r) ! i * (A ! p ! c / A ! p ! i)"
    and br: "\<And>r. r < n \<Longrightarrow> r \<noteq> i \<Longrightarrow>
          b' ! r = b ! (if r = p then i else r)
                      - A ! (if r = p then i else r) ! i * (b ! p / A ! p ! i)"
    by blast
  have Li: "lhs n (A' ! i) v = lhs n (A ! p) v / A ! p ! i" for v
    unfolding lhs_def by (simp add: rowi sum_divide_distrib)
  have Lr: "lhs n (A' ! r) v = lhs n (A ! (if r = p then i else r)) v
                - A ! (if r = p then i else r) ! i * lhs n (A' ! i) v"
    if "r < n" "r \<noteq> i" for r v
  proof -
    have "lhs n (A' ! r) v =
       (\<Sum>c<n. A ! (if r = p then i else r) ! c * v c
               - A ! (if r = p then i else r) ! i * (A' ! i ! c * v c))"
      unfolding lhs_def by (rule sum.cong) (simp_all add: rowr[OF that] rowi algebra_simps)
    then show ?thesis
      unfolding lhs_def by (simp add: sum_subtractf sum_distrib_left)
  qed
  have sol: "solves n (A', b') v \<longleftrightarrow> solves n (A, b) v" for v
    unfolding solves_def fst_conv snd_conv
    by (rule row_ops_equiv[OF i pn piv0, where f = "\<lambda>r. A ! (if r = p then i else r) ! i"])
      (simp_all add: Li Lr bi br)
  have ker: "kernel n A' v \<longleftrightarrow> kernel n A v" for v
    unfolding kernel_def
    by (rule row_ops_equiv[OF i pn piv0, where f = "\<lambda>r. A ! (if r = p then i else r) ! i"])
      (simp_all add: Li Lr)
  have zero_left: "A ! p ! c = 0" if "c < i" for c
  proof -
    from that ip have "p \<noteq> c" by simp
    with uc pn that show ?thesis by (simp add: unit_cols_def)
  qed
  have uc': "unit_cols n (Suc i) A'"
    unfolding unit_cols_def
  proof (intro allI impI)
    fix r c assume r: "r < n" and c: "c < Suc i"
    from c i have cn: "c < n" by simp
    show "A' ! r ! c = (if r = c then 1 else 0)"
    proof (cases "r = i")
      case True
      show ?thesis
      proof (cases "c = i")
        case True
        with \<open>r = i\<close> piv0 rowi[OF cn] show ?thesis by simp
      next
        case False
        with c have "c < i" by simp
        with \<open>r = i\<close> rowi[OF cn] zero_left[of c] show ?thesis by simp
      qed
    next
      case ri: False
      let ?q = "if r = p then i else r"
      have qn: "?q < n" using r i by simp
      show ?thesis
      proof (cases "c = i")
        case True
        with ri piv0 rowr[OF r ri cn] show ?thesis by simp
      next
        case False
        with c have ci: "c < i" by simp
        from uc qn ci have "A ! ?q ! c = (if ?q = c then 1 else 0)"
          by (simp add: unit_cols_def)
        moreover from ci ip have "(?q = c) = (r = c)" by auto
        ultimately show ?thesis
          using rowr[OF r ri cn] zero_left[OF ci] by simp
      qed
    qed
  qed
  from step wf' uc' sol ker show ?thesis by auto
qed

subsection \<open>The solver returns the solution of a regular system\<close>

lemma pivot_nonzero:
  assumes wf: "wf_system n (A, b)" and i: "i < n" and uc: "unit_cols n i A"
    and fp: "findPivot A n i = (p, m)"
    and triv: "\<And>v. kernel n A v \<Longrightarrow> \<forall>c<n. v c = 0"
  shows "m \<noteq> 0"
proof
  assume m0: "m = 0"
  note pp = findPivot_props[OF fp i]
  have col0: "A ! r ! i = 0" if "i \<le> r" "r < n" for r
    using pp(4)[OF that] m0 by simp
  define v where "v = (\<lambda>c. if c = i then 1 else if c < i then - (A ! c ! i) else 0)"
  have "lhs n (A ! r) v = 0" if r: "r < n" for r
  proof -
    have tm: "A ! r ! c * v c =
        (if c = i then A ! r ! i else 0) + (if c = r then (if r < i then - (A ! r ! i) else 0) else 0)"
      if c: "c < n" for c
    proof (cases "c < i")
      case True
      with uc r have "A ! r ! c = (if r = c then 1 else 0)" by (simp add: unit_cols_def)
      with True show ?thesis by (auto simp add: v_def)
    next
      case False
      then show ?thesis by (auto simp add: v_def)
    qed
    have "lhs n (A ! r) v =
       (\<Sum>c<n. (if c = i then A ! r ! i else 0) + (if c = r then (if r < i then - (A ! r ! i) else 0) else 0))"
      unfolding lhs_def by (rule sum.cong) (simp_all add: tm)
    also have "\<dots> = A ! r ! i + (if r < i then - (A ! r ! i) else 0)"
      using i r by (simp add: sum.distrib)
    also have "\<dots> = 0"
      using col0[of r] r by (cases "r < i") simp_all
    finally show ?thesis .
  qed
  then have "kernel n A v" by (simp add: kernel_def)
  from triv[OF this] i have "v i = 0" by blast
  then show False by (simp add: v_def)
qed

lemma solveLoop_correct:
  assumes "wf_system n s" "k \<le> n" "unit_cols n k (fst s)"
    and "\<And>v. kernel n (fst s) v \<Longrightarrow> \<forall>c<n. v c = 0"
  shows "\<exists>s'. solveLoop n [k..<n] s = Inr s' \<and> wf_system n s' \<and> unit_cols n n (fst s')
     \<and> (\<forall>v. solves n s' v \<longleftrightarrow> solves n s v)"
  using assms
proof (induction "n - k" arbitrary: k s)
  case 0
  then have "k = n" by simp
  with "0.prems" show ?case by simp
next
  case (Suc d)
  from Suc.hyps(2) have kn: "k < n" by simp
  obtain A b where s: "s = (A, b)" by (cases s)
  obtain p m where fp: "findPivot A n k = (p, m)" by (cases "findPivot A n k")
  from Suc.prems s have wf: "wf_system n (A, b)" and uc: "unit_cols n k A"
    and triv: "\<And>v. kernel n A v \<Longrightarrow> \<forall>c<n. v c = 0" by simp_all
  from pivot_nonzero[OF wf kn uc fp triv] have m: "m \<noteq> 0" .
  from solveStep_invariant[OF wf kn uc fp m] obtain s1 where
    step: "solveStep n k (A, b) = Inr s1" and wf1: "wf_system n s1"
    and uc1: "unit_cols n (Suc k) (fst s1)"
    and sol1: "\<And>v. solves n s1 v \<longleftrightarrow> solves n (A, b) v"
    and ker1: "\<And>v. kernel n (fst s1) v \<longleftrightarrow> kernel n A v"
    by blast
  from Suc.hyps(2) have d: "d = n - Suc k" by simp
  from kn have sk: "Suc k \<le> n" by simp
  have triv1: "\<And>v. kernel n (fst s1) v \<Longrightarrow> \<forall>c<n. v c = 0"
    using ker1 triv by blast
  from Suc.hyps(1)[OF d wf1 sk uc1 triv1] obtain s' where
    rest: "solveLoop n [Suc k..<n] s1 = Inr s'" and wf': "wf_system n s'"
    and uc': "unit_cols n n (fst s')" and sol': "\<And>v. solves n s' v \<longleftrightarrow> solves n s1 v"
    by blast
  from kn have "[k..<n] = k # [Suc k..<n]" by (rule upt_conv_Cons)
  with step rest s have "solveLoop n [k..<n] s = Inr s'" by simp
  with wf' uc' sol' sol1 s show ?case by simp
qed

lemma unit_lhs:
  assumes "unit_cols n n A" "r < n"
  shows "lhs n (A ! r) v = v r"
proof -
  have "lhs n (A ! r) v = (\<Sum>c<n. if c = r then v c else 0)"
    unfolding lhs_def
    using assms by (intro sum.cong) (auto simp add: unit_cols_def)
  also have "\<dots> = v r" using assms(2) by simp
  finally show ?thesis .
qed

lemma solveLinearSystem_correct:
  assumes wf: "wf_system n (A, b)"
    and triv: "\<And>v. kernel n A v \<Longrightarrow> \<forall>c<n. v c = 0"
  shows "\<exists>h. solveLinearSystem A b = Inr h \<and> length h = n \<and> solves n (A, b) (\<lambda>c. h ! c)"
proof -
  from wf have lA: "length A = n" by (simp add: wf_system_def)
  have uc0: "unit_cols n 0 (fst (A, b))" by (simp add: unit_cols_def)
  from solveLoop_correct[OF wf _ uc0, of ] triv obtain s' where
    loop: "solveLoop n [0..<n] (A, b) = Inr s'" and wf': "wf_system n s'"
    and uc': "unit_cols n n (fst s')" and sol': "\<And>v. solves n s' v \<longleftrightarrow> solves n (A, b) v"
    by auto
  obtain A' b' where s': "s' = (A', b')" by (cases s')
  from loop s' lA have res: "solveLinearSystem A b = Inr b'"
    by (simp add: solveLinearSystem_def)
  from wf' s' have lb': "length b' = n" by (simp add: wf_system_def)
  have "solves n s' (\<lambda>c. b' ! c)"
    using uc' s' by (simp add: solves_def unit_lhs)
  with sol' have "solves n (A, b) (\<lambda>c. b' ! c)" by simp
  with res lb' show ?thesis by blast
qed

lemma solveLoop_error:
  "solveLoop n is s = Inl e \<Longrightarrow> e = Error ''Homography system is singular.''"
proof (induction "is" arbitrary: s)
  case Nil
  then show ?case by simp
next
  case (Cons i "is")
  show ?case
  proof (cases "solveStep n i s")
    case (Inl e')
    with Cons.prems have "e' = e" by simp
    with Inl show ?thesis
      by (auto simp add: solveStep_def Let_def split: prod.splits if_splits)
  next
    case (Inr s')
    with Cons show ?thesis by simp
  qed
qed

lemma solveLinearSystem_error:
  "solveLinearSystem A b = Inl e \<Longrightarrow> e = Error ''Homography system is singular.''"
  by (auto simp add: solveLinearSystem_def Let_def split: sum.splits dest: solveLoop_error)

subsection \<open>The system of the four correspondences\<close>

lemma all_less_8:
  "(\<forall>r<8. P r) \<longleftrightarrow> P 0 \<and> P 1 \<and> P 2 \<and> P 3 \<and> P 4 \<and> P 5 \<and> P 6 \<and> P (7::nat)"
proof -
  have s: "{..<8::nat} = {0, 1, 2, 3, 4, 5, 6, 7}" by auto
  have "(\<forall>r<8. P r) \<longleftrightarrow> (\<forall>r\<in>{..<8}. P r)" by auto
  then show ?thesis unfolding s by simp
qed

lemma all_less_4:
  "(\<forall>r<4. P r) \<longleftrightarrow> P 0 \<and> P 1 \<and> P 2 \<and> P (3::nat)"
proof -
  have s: "{..<4::nat} = {0, 1, 2, 3}" by auto
  have "(\<forall>r<4. P r) \<longleftrightarrow> (\<forall>r\<in>{..<4}. P r)" by auto
  then show ?thesis unfolding s by simp
qed

lemma buildSystem_unfold:
  "buildSystem (src_rect w h) (p0, p1, p2, p3) =
     ([ [0, 0, 1, 0, 0, 0, - x p0 * 0, - x p0 * 0],
       [0, 0, 0, 0, 0, 1, - y p0 * 0, - y p0 * 0],
       [w, 0, 1, 0, 0, 0, - x p1 * w, - x p1 * 0],
       [0, 0, 0, w, 0, 1, - y p1 * w, - y p1 * 0],
       [w, h, 1, 0, 0, 0, - x p2 * w, - x p2 * h],
       [0, 0, 0, w, h, 1, - y p2 * w, - y p2 * h],
       [0, h, 1, 0, 0, 0, - x p3 * 0, - x p3 * h],
       [0, 0, 0, 0, h, 1, - y p3 * 0, - y p3 * h] ],
      [x p0, y p0, x p1, y p1, x p2, y p2, x p3, y p3])"
  by (simp add: buildSystem_def src_rect_def upt4 Let_def)

lemma lhs_8:
  "lhs 8 [a0, a1, a2, a3, a4, a5, a6, a7] v =
     a0 * v 0 + a1 * v 1 + a2 * v 2 + a3 * v 3 + a4 * v 4 + a5 * v 5 + a6 * v 6 + a7 * v 7"
  by (simp add: lhs_def eval_nat_numeral)

lemma homography_wf: "wf_system 8 (buildSystem (src_rect w h) q)"
  by (cases q) (simp add: buildSystem_unfold wf_system_def all_less_8)

lemma homography_solves:
  "solves 8 (buildSystem (src_rect w h) (p0, p1, p2, p3)) v \<longleftrightarrow>
     v 2 = x p0 \<and> v 5 = y p0
     \<and> w * v 0 + v 2 - x p1 * w * v 6 = x p1
     \<and> w * v 3 + v 5 - y p1 * w * v 6 = y p1
     \<and> w * v 0 + h * v 1 + v 2 - x p2 * w * v 6 - x p2 * h * v 7 = x p2
     \<and> w * v 3 + h * v 4 + v 5 - y p2 * w * v 6 - y p2 * h * v 7 = y p2
     \<and> h * v 1 + v 2 - x p3 * h * v 7 = x p3
     \<and> h * v 4 + v 5 - y p3 * h * v 7 = y p3"
  by (simp add: solves_def buildSystem_unfold all_less_8 lhs_8 algebra_simps)

lemma homography_kernel_eqs:
  "kernel 8 (fst (buildSystem (src_rect w h) (p0, p1, p2, p3))) v \<longleftrightarrow>
     v 2 = 0 \<and> v 5 = 0
     \<and> w * v 0 + v 2 - x p1 * w * v 6 = 0
     \<and> w * v 3 + v 5 - y p1 * w * v 6 = 0
     \<and> w * v 0 + h * v 1 + v 2 - x p2 * w * v 6 - x p2 * h * v 7 = 0
     \<and> w * v 3 + h * v 4 + v 5 - y p2 * w * v 6 - y p2 * h * v 7 = 0
     \<and> h * v 1 + v 2 - x p3 * h * v 7 = 0
     \<and> h * v 4 + v 5 - y p3 * h * v 7 = 0"
  by (simp add: kernel_def buildSystem_unfold all_less_8 lhs_8 algebra_simps)

lemma homography_kernel_trivial:
  assumes w: "w \<noteq> 0" and h: "h \<noteq> 0" and c: "cross p1 p2 p3 \<noteq> 0"
    and k: "kernel 8 (fst (buildSystem (src_rect w h) (p0, p1, p2, p3))) v"
  shows "\<forall>c<8. v c = 0"
proof -
  have e: "v 2 = 0" "v 5 = 0"
     "w * v 0 + v 2 - x p1 * w * v 6 = 0"
     "w * v 3 + v 5 - y p1 * w * v 6 = 0"
     "w * v 0 + h * v 1 + v 2 - x p2 * w * v 6 - x p2 * h * v 7 = 0"
     "w * v 3 + h * v 4 + v 5 - y p2 * w * v 6 - y p2 * h * v 7 = 0"
     "h * v 1 + v 2 - x p3 * h * v 7 = 0"
     "h * v 4 + v 5 - y p3 * h * v 7 = 0"
    using k[unfolded homography_kernel_eqs] by blast+
  define a where "a = w * v 6"
  define d where "d = h * v 7"
  have ex: "(x p1 - x p2) * a + (x p3 - x p2) * d = 0"
    using e(1,3,5,7) unfolding a_def d_def by algebra
  have ey: "(y p1 - y p2) * a + (y p3 - y p2) * d = 0"
    using e(2,4,6,8) unfolding a_def d_def by algebra
  have D: "cross p1 p2 p3 = - ((x p1 - x p2) * (y p3 - y p2) - (y p1 - y p2) * (x p3 - x p2))"
    by (simp add: cross_def Let_def algebra_simps)
  have "a * cross p1 p2 p3 = 0"
  proof -
    have "a * cross p1 p2 p3 =
       - (((x p1 - x p2) * a + (x p3 - x p2) * d) * (y p3 - y p2)
          - ((y p1 - y p2) * a + (y p3 - y p2) * d) * (x p3 - x p2))"
      unfolding D by (simp add: algebra_simps)
    then show ?thesis unfolding ex ey by simp
  qed
  with c have a0: "a = 0" by simp
  have "d * cross p1 p2 p3 = 0"
  proof -
    have "d * cross p1 p2 p3 =
       - (((y p1 - y p2) * a + (y p3 - y p2) * d) * (x p1 - x p2)
          - ((x p1 - x p2) * a + (x p3 - x p2) * d) * (y p1 - y p2))"
      unfolding D by (simp add: algebra_simps)
    then show ?thesis unfolding ex ey by simp
  qed
  with c have d0: "d = 0" by simp
  from a0 w have v6: "v 6 = 0" by (simp add: a_def)
  from d0 h have v7: "v 7 = 0" by (simp add: d_def)
  from e(3) e(1) v6 w have v0: "v 0 = 0" by simp
  from e(4) e(2) v6 w have v3: "v 3 = 0" by simp
  from e(7) e(1) v7 h have v1: "v 1 = 0" by simp
  from e(8) e(2) v7 h have v4: "v 4 = 0" by simp
  from e(1,2) v0 v1 v3 v4 v6 v7 show ?thesis by (simp add: all_less_8)
qed

lemma applyHomography_scaled:
  assumes "H0 * x s + H1 * y s + H2 = x t * (H6 * x s + H7 * y s + H8)"
    and "H3 * x s + H4 * y s + H5 = y t * (H6 * x s + H7 * y s + H8)"
  shows "applyHomography (Matrix3x3 H0 H1 H2 H3 H4 H5 H6 H7 H8) s =
     (if \<bar>H6 * x s + H7 * y s + H8\<bar> < W_EPSILON then Inl DegenerateProjection else Inr t)"
proof (cases "\<bar>H6 * x s + H7 * y s + H8\<bar> < W_EPSILON")
  case True
  then show ?thesis by (simp add: DegenerateProjection_def)
next
  case False
  then have "H6 * x s + H7 * y s + H8 \<noteq> 0" by (auto simp add: W_EPSILON_def)
  with False assms show ?thesis by (simp add: Let_def)
qed

lemma homography_corners:
  assumes sol: "solves 8 (buildSystem (src_rect w h) q) v"
  shows "\<forall>i<4. applyHomography (Matrix3x3 (v 0) (v 1) (v 2) (v 3) (v 4) (v 5) (v 6) (v 7) 1)
              (src_rect w h ! i) = Inr (quad_at q i)
          \<or> applyHomography (Matrix3x3 (v 0) (v 1) (v 2) (v 3) (v 4) (v 5) (v 6) (v 7) 1)
              (src_rect w h ! i) = Inl DegenerateProjection"
proof -
  obtain p0 p1 p2 p3 where q: "q = (p0, p1, p2, p3)" by (cases q)
  let ?M = "Matrix3x3 (v 0) (v 1) (v 2) (v 3) (v 4) (v 5) (v 6) (v 7) 1"
  have e: "v 2 = x p0" "v 5 = y p0"
     "w * v 0 + v 2 - x p1 * w * v 6 = x p1"
     "w * v 3 + v 5 - y p1 * w * v 6 = y p1"
     "w * v 0 + h * v 1 + v 2 - x p2 * w * v 6 - x p2 * h * v 7 = x p2"
     "w * v 3 + h * v 4 + v 5 - y p2 * w * v 6 - y p2 * h * v 7 = y p2"
     "h * v 1 + v 2 - x p3 * h * v 7 = x p3"
     "h * v 4 + v 5 - y p3 * h * v 7 = y p3"
    using sol[unfolded q homography_solves] by blast+
  have c0: "applyHomography ?M \<lparr>x = 0, y = 0\<rparr> =
      (if \<bar>v 6 * x \<lparr>x = 0, y = 0\<rparr> + v 7 * y \<lparr>x = 0, y = 0\<rparr> + 1\<bar> < W_EPSILON
       then Inl DegenerateProjection else Inr p0)"
    by (rule applyHomography_scaled) (simp_all add: e)
  have c1: "applyHomography ?M \<lparr>x = w, y = 0\<rparr> =
      (if \<bar>v 6 * x \<lparr>x = w, y = 0\<rparr> + v 7 * y \<lparr>x = w, y = 0\<rparr> + 1\<bar> < W_EPSILON
       then Inl DegenerateProjection else Inr p1)"
    apply (rule applyHomography_scaled)
    using e(3) apply (simp add: algebra_simps)
    using e(4) apply (simp add: algebra_simps)
    done
  have c2: "applyHomography ?M \<lparr>x = w, y = h\<rparr> =
      (if \<bar>v 6 * x \<lparr>x = w, y = h\<rparr> + v 7 * y \<lparr>x = w, y = h\<rparr> + 1\<bar> < W_EPSILON
       then Inl DegenerateProjection else Inr p2)"
    apply (rule applyHomography_scaled)
    using e(5) apply (simp add: algebra_simps)
    using e(6) apply (simp add: algebra_simps)
    done
  have c3: "applyHomography ?M \<lparr>x = 0, y = h\<rparr> =
      (if \<bar>v 6 * x \<lparr>x = 0, y = h\<rparr> + v 7 * y \<lparr>x = 0, y = h\<rparr> + 1\<bar> < W_EPSILON
       then Inl DegenerateProjection else Inr p3)"
    apply (rule applyHomography_scaled)
    using e(7) apply (simp add: algebra_simps)
    using e(8) apply (simp add: algebra_simps)
    done
  show ?thesis
    unfolding all_less_4 q src_rect_def
    using c0 c1 c2 c3 by (simp del: applyHomography.simps)
qed

lemma sanityLoop_char:
  assumes "\<forall>i\<in>set js. applyHomography H (src ! i) = Inr (quad_at q i)
                      \<or> applyHomography H (src ! i) = Inl DegenerateProjection"
  shows "sanityLoop src q H js =
     (if \<forall>i\<in>set js. applyHomography H (src ! i) = Inr (quad_at q i) then Inr ()
      else Inl DegenerateProjection)"
  using assms
proof (induction js)
  case Nil
  then show ?case by simp
next
  case (Cons j js)
  from Cons.prems have rest: "\<forall>i\<in>set js. applyHomography H (src ! i) = Inr (quad_at q i)
                      \<or> applyHomography H (src ! i) = Inl DegenerateProjection" by simp
  from Cons.prems consider
    (ok) "applyHomography H (src ! j) = Inr (quad_at q j)"
    | (deg) "applyHomography H (src ! j) = Inl DegenerateProjection" by auto
  then show ?case
  proof cases
    case ok
    with Cons.IH[OF rest] show ?thesis
      by (simp add: Let_def DEFAULT_EPSILON_def)
  next
    case deg
    then show ?thesis by auto
  qed
qed

lemma isProd_simps [simp]: "isProd production" "\<not> isProd development" "\<not> isProd None"
  by (simp_all add: isProd_def production_def development_def)

lemma valid_cross123:
  assumes "validateQuad (p0, p1, p2, p3) DEFAULT_EPSILON = Ok"
  shows "cross p1 p2 p3 \<noteq> 0"
proof -
  from assms have "\<not> hasCollinearTriplet (p0, p1, p2, p3) DEFAULT_EPSILON"
    by (simp add: validateQuad_Ok_iff)
  then have "\<bar>cross p1 p2 p3\<bar> > DEFAULT_EPSILON"
    by (simp add: hasCollinearTriplet_unfold)
  then show ?thesis by (auto simp add: DEFAULT_EPSILON_def)
qed

lemma compute_valid:
  assumes val: "validateQuad q DEFAULT_EPSILON = Ok" and w: "0 < w" and h: "0 < h"
  shows "\<exists>v. solves 8 (buildSystem (src_rect w h) q) v \<and>
     (\<forall>proc. computeHomographyRectToQuad proc w h q =
        (if isProd proc \<or> (\<forall>i<4. applyHomography
               (Matrix3x3 (v 0) (v 1) (v 2) (v 3) (v 4) (v 5) (v 6) (v 7) 1) (src_rect w h ! i)
                 = Inr (quad_at q i))
         then Inr (Matrix3x3 (v 0) (v 1) (v 2) (v 3) (v 4) (v 5) (v 6) (v 7) 1)
         else Inl DegenerateProjection))"
proof -
  obtain p0 p1 p2 p3 where q: "q = (p0, p1, p2, p3)" by (cases q)
  obtain A b where Ab: "buildSystem (src_rect w h) q = (A, b)"
    by (cases "buildSystem (src_rect w h) q")
  from homography_wf[of w h q] Ab have wf: "wf_system 8 (A, b)" by simp
  have triv: "\<forall>c<8. v c = 0" if "kernel 8 A v" for v
  proof -
    from that Ab q have "kernel 8 (fst (buildSystem (src_rect w h) (p0, p1, p2, p3))) v" by simp
    from homography_kernel_trivial[OF _ _ valid_cross123 this] val w h q show ?thesis by simp
  qed
  from solveLinearSystem_correct[OF wf triv] obtain hs where
    hs: "solveLinearSystem A b = Inr hs" and sol: "solves 8 (A, b) (\<lambda>c. hs ! c)" by blast
  let ?v = "\<lambda>c. hs ! c"
  let ?M = "Matrix3x3 (?v 0) (?v 1) (?v 2) (?v 3) (?v 4) (?v 5) (?v 6) (?v 7) 1"
  from sol Ab have sol': "solves 8 (buildSystem (src_rect w h) q) ?v" by simp
  have corners: "\<forall>i\<in>set [0..<4]. applyHomography ?M (src_rect w h ! i) = Inr (quad_at q i)
       \<or> applyHomography ?M (src_rect w h ! i) = Inl DegenerateProjection"
    using homography_corners[OF sol'] by simp
  have sanity: "sanityCheckRectToQuad w h q ?M =
      (if \<forall>i<4. applyHomography ?M (src_rect w h ! i) = Inr (quad_at q i) then Inr ()
       else Inl DegenerateProjection)"
    unfolding sanityCheckRectToQuad_def sanityLoop_char[OF corners] by simp
  have "computeHomographyRectToQuad proc w h q =
        (if isProd proc \<or> (\<forall>i<4. applyHomography ?M (src_rect w h ! i) = Inr (quad_at q i))
         then Inr ?M else Inl DegenerateProjection)" for proc
    using w h val Ab hs sanity
    by (simp add: computeHomographyRectToQuad_def Let_def del: applyHomography.simps)
  with sol' show ?thesis by blast
qed

subsection \<open>Two concrete quads\<close>

lemmas validate_eval = validateQuad_Ok_iff hasDuplicatePoints_unfold hasCollinearTriplet_unfold
  quadArea_unfold isSelfIntersecting_def segmentsIntersect_proper cross_def Let_def DEFAULT_EPSILON_def




lemma scenario_corners:
  "applyHomography scenario_matrix \<lparr>x = 0, y = 0\<rparr> = Inr \<lparr>x = 10, y = 10\<rparr>"
  "applyHomography scenario_matrix \<lparr>x = 100, y = 0\<rparr> = Inr \<lparr>x = 210, y = 10\<rparr>"
  "applyHomography scenario_matrix \<lparr>x = 100, y = 50\<rparr> = Inr \<lparr>x = 200, y = 110\<rparr>"
  "applyHomography scenario_matrix \<lparr>x = 0, y = 50\<rparr> = Inr \<lparr>x = 0, y = 100\<rparr>"
  by (simp_all add: W_EPSILON_def)





subsection \<open>Errors and fullscreen rectangles\<close>

lemma error_distinct:
  "InvalidQuad r \<noteq> InvalidDimensions" "InvalidDimensions \<noteq> InvalidQuad r"
  "DegenerateProjection \<noteq> InvalidDimensions" "InvalidDimensions \<noteq> DegenerateProjection"
  "DegenerateProjection \<noteq> InvalidQuad r" "InvalidQuad r \<noteq> DegenerateProjection"
  "InvalidQuad r = InvalidQuad r' \<longleftrightarrow> r = r'"
  by (simp_all add: InvalidQuad_def InvalidDimensions_def DegenerateProjection_def)


lemma compute_invalid:
  "w \<le> 0 \<or> h \<le> 0 \<Longrightarrow> computeHomographyRectToQuad proc w h q = Inl InvalidDimensions"
  "0 < w \<Longrightarrow> 0 < h \<Longrightarrow> validateQuad q DEFAULT_EPSILON = Rejected r \<Longrightarrow>
     computeHomographyRectToQuad proc w h q = Inl (InvalidQuad r)"
  by (simp_all add: computeHomographyRectToQuad_def InvalidDimensions_def InvalidQuad_def)





lemma quadFromRect_sel_Suc [simp]:
  "quad_at (quadFromRect a b c d) (Suc 0) = \<lparr>x = a + c, y = b\<rparr>"
  by (simp add: quadFromRect_def)




subsection \<open>Rounding to double precision\<close>

lemma pow2_powr: "pow2 k = 2 powr of_int k"
proof (cases "0 \<le> k")
  case True
  then have "2 powr of_int k = (2::real) powr real (nat k)" by simp
  also have "\<dots> = 2 ^ nat k" by (rule powr_realpow) simp
  finally show ?thesis using True by (simp add: pow2_def)
next
  case False
  then have "2 powr of_int k = (2::real) powr - real (nat (- k))" by simp
  also have "\<dots> = 1 / 2 powr real (nat (- k))" by (simp add: powr_minus divide_inverse)
  also have "\<dots> = 1 / 2 ^ nat (- k)" by (simp add: powr_realpow)
  finally show ?thesis using False by (simp add: pow2_def)
qed

lemma pow2_pos [simp]: "0 < pow2 k"
  by (simp add: pow2_powr)

lemma pow2_nonzero [simp]: "pow2 k \<noteq> 0"
  by (simp add: pow2_powr)

lemma pow2_abs [simp]: "\<bar>pow2 k\<bar> = pow2 k"
  by (simp add: pow2_powr)

lemma pow2_add: "pow2 (a + b) = pow2 a * pow2 b"
  by (simp add: pow2_powr powr_add)

lemma pow2_less_iff: "pow2 a < pow2 b \<longleftrightarrow> a < b"
  by (simp add: pow2_powr)

lemma pow2_nat: "0 \<le> k \<Longrightarrow> pow2 k = of_int (2 ^ nat k)"
  by (simp add: pow2_def)

lemma round_half_even_int [simp]: "round_half_even (of_int n) = n"
  by (simp add: round_half_even_def)

lemma floor_log2:
  assumes "pow2 e \<le> v" "v < pow2 (e + 1)"
  shows "\<lfloor>log 2 v\<rfloor> = e"
proof -
  have pos: "0 < v" by (rule less_le_trans[OF pow2_pos assms(1)])
  have "of_int e \<le> log 2 v" using assms(1) pos by (simp add: le_log_iff pow2_powr)
  moreover have "log 2 v < of_int e + 1" using assms(2) pos by (simp add: log_less_iff pow2_powr)
  ultimately show ?thesis by (simp add: floor_unique)
qed

text \<open>Rounding a value whose binade is known.\<close>

lemma binary64_eval:
  assumes "pow2 e \<le> \<bar>v\<bar>" "\<bar>v\<bar> < pow2 (e + 1)" "- 1022 \<le> e"
  shows "binary64 v = of_int (round_half_even (v / pow2 (e - 52))) * pow2 (e - 52)"
proof -
  have "0 < \<bar>v\<bar>" by (rule less_le_trans[OF pow2_pos assms(1)])
  then have "v \<noteq> 0" by simp
  with floor_log2[OF assms(1,2)] assms(3) show ?thesis
    by (simp add: binary64_def Let_def max_def)
qed

lemma log2_floor_bound:
  assumes "0 < v"
  shows "pow2 \<lfloor>log 2 v\<rfloor> \<le> v"
proof -
  have "of_int \<lfloor>log 2 v\<rfloor> \<le> log 2 v" by simp
  then show ?thesis
    using assms by (simp add: pow2_powr powr_le_iff)
qed

text \<open>A number with a significand of at most 53 bits is a double: rounding returns it.\<close>

lemma binary64_exact:
  assumes m: "\<bar>m\<bar> < 2 ^ 53" and e: "- 1074 \<le> e"
  shows "binary64 (of_int m * pow2 e) = of_int m * pow2 e"
proof (cases "m = 0")
  case True
  then show ?thesis by (simp add: binary64_def)
next
  case False
  let ?v = "of_int m * pow2 e :: real"
  let ?L = "\<lfloor>log 2 \<bar>?v\<bar>\<rfloor>"
  let ?E = "max ?L (- 1022)"
  from False have v0: "?v \<noteq> 0" by simp
  then have vpos: "0 < \<bar>?v\<bar>" by simp
  have "\<bar>?v\<bar> = of_int \<bar>m\<bar> * pow2 e" by (simp add: abs_mult)
  also have "\<dots> < of_int (2 ^ 53) * pow2 e"
    using m by (intro mult_strict_right_mono) (simp_all del: of_int_power)
  also have "\<dots> = pow2 (53 + e)"
    unfolding pow2_add by (simp add: pow2_def)
  finally have "\<bar>?v\<bar> < pow2 (53 + e)" .
  with log2_floor_bound[OF vpos] have "pow2 ?L < pow2 (53 + e)" by simp
  then have "?L < 53 + e" by (simp add: pow2_less_iff)
  with e have k: "0 \<le> e - (?E - 52)" by simp
  have "pow2 e = pow2 (e - (?E - 52)) * pow2 (?E - 52)"
    by (simp add: pow2_add[symmetric])
  also have "\<dots> = of_int (2 ^ nat (e - (?E - 52))) * pow2 (?E - 52)"
    using pow2_nat[OF k] by simp
  finally have pe: "pow2 e = of_int (2 ^ nat (e - (?E - 52))) * pow2 (?E - 52)" .
  have "?v / pow2 (?E - 52) = of_int (m * 2 ^ nat (e - (?E - 52)))"
    by (subst pe) simp
  then have "round_half_even (?v / pow2 (?E - 52)) = m * 2 ^ nat (e - (?E - 52))"
    by (simp only: round_half_even_int)
  then have "binary64 ?v = of_int (m * 2 ^ nat (e - (?E - 52))) * pow2 (?E - 52)"
    using v0 by (simp add: binary64_def Let_def)
  also have "\<dots> = ?v" by (subst (2) pe) simp
  finally show ?thesis .
qed

lemma binary64_int: "\<bar>m\<bar> < 2 ^ 53 \<Longrightarrow> binary64 (of_int m) = of_int m"
  using binary64_exact[of m 0] by (simp add: pow2_def)

lemma binary64_quarter: "\<bar>m\<bar> < 2 ^ 53 \<Longrightarrow> binary64 (of_int m / 4) = of_int m / 4"
  using binary64_exact[of m "- 2"] by (simp add: pow2_def)

text \<open>Sums, quarters and differences of integer coordinates are computed without rounding.\<close>

lemma getQuadCenter_f64_unfold:
  "getQuadCenter_f64 (p0, p1, p2, p3) =
     \<lparr>x = fdiv (fadd (fadd (fadd (fadd 0 (x p0)) (x p1)) (x p2)) (x p3)) 4,
      y = fdiv (fadd (fadd (fadd (fadd 0 (y p0)) (y p1)) (y p2)) (y p3)) 4\<rparr>"
  by (simp add: getQuadCenter_f64_def Let_def)

lemma pixelE:
  assumes "pixel v"
  obtains a where "v = of_int a" "\<bar>a\<bar> < 2 ^ 50"
proof -
  from assms have v: "v = of_int \<lfloor>v\<rfloor>" and b: "\<bar>v\<bar> < 2 ^ 50" by (simp_all add: pixel_def)
  from b have "\<bar>of_int \<lfloor>v\<rfloor> :: real\<bar> < 2 ^ 50" using v by simp
  then have "\<bar>\<lfloor>v\<rfloor>\<bar> < 2 ^ 50"
    by (metis of_int_abs of_int_less_numeral_power_cancel_iff)
  with v that show thesis by blast
qed

lemma fadd_int:
  "\<bar>a + b\<bar> < 2 ^ 53 \<Longrightarrow> fadd (of_int a) (of_int b) = of_int (a + b)"
  unfolding fadd_def using binary64_int[of "a + b"] by simp

lemma fadd_zero_int: "\<bar>a\<bar> < 2 ^ 53 \<Longrightarrow> fadd 0 (of_int a) = of_int a"
  using fadd_int[of 0 a] by simp

lemma fdiv4_int: "\<bar>s\<bar> < 2 ^ 53 \<Longrightarrow> fdiv (of_int s) 4 = of_int s / 4"
  unfolding fdiv_def by (rule binary64_quarter)

lemma fsub_quarter:
  "\<bar>4 * a - s\<bar> < 2 ^ 53 \<Longrightarrow> fsub (of_int a) (of_int s / 4) = of_int (4 * a - s) / 4"
  unfolding fsub_def using binary64_quarter[of "4 * a - s"] by (simp add: field_simps)

lemma fmul_one_quarter: "\<bar>d\<bar> < 2 ^ 53 \<Longrightarrow> fmul (of_int d / 4) 1 = of_int d / 4"
  unfolding fmul_def using binary64_quarter[of d] by simp

lemma fadd_quarter:
  "\<bar>a\<bar> < 2 ^ 53 \<Longrightarrow> fadd (of_int s / 4) (of_int (4 * a - s) / 4) = of_int a"
  unfolding fadd_def using binary64_int[of a] by (simp add: field_simps)

lemma int_centre:
  assumes "\<bar>a0\<bar> < 2 ^ 50" "\<bar>a1\<bar> < 2 ^ 50" "\<bar>a2\<bar> < 2 ^ 50" "\<bar>a3\<bar> < (2 ^ 50 :: int)"
  shows "fdiv (fadd (fadd (fadd (fadd 0 (of_int a0)) (of_int a1)) (of_int a2)) (of_int a3)) 4
           = of_int (a0 + a1 + a2 + a3) / 4"
    and "\<bar>a0 + a1 + a2 + a3\<bar> < 2 ^ 52"
proof -
  from assms have b: "\<bar>a0\<bar> < 2 ^ 53" "\<bar>a0 + a1\<bar> < 2 ^ 53" "\<bar>a0 + a1 + a2\<bar> < 2 ^ 53"
    "\<bar>a0 + a1 + a2 + a3\<bar> < 2 ^ 53" by simp_all
  show "fdiv (fadd (fadd (fadd (fadd 0 (of_int a0)) (of_int a1)) (of_int a2)) (of_int a3)) 4
           = of_int (a0 + a1 + a2 + a3) / 4"
    unfolding fadd_zero_int[OF b(1)] fadd_int[OF b(2)] fadd_int[OF b(3)] fadd_int[OF b(4)]
      fdiv4_int[OF b(4)] ..
  from assms show "\<bar>a0 + a1 + a2 + a3\<bar> < 2 ^ 52" by simp
qed

lemma int_corner:
  assumes "\<bar>a\<bar> < 2 ^ 50" "\<bar>s\<bar> < (2 ^ 52 :: int)"
  shows "fadd (of_int s / 4) (fmul (fsub (of_int a) (of_int s / 4)) 1) = of_int a"
proof -
  from assms have b: "\<bar>4 * a - s\<bar> < 2 ^ 53" "\<bar>a\<bar> < 2 ^ 53" by simp_all
  show ?thesis
    unfolding fsub_quarter[OF b(1)] fmul_one_quarter[OF b(1)] fadd_quarter[OF b(2)] ..
qed

lemma scaleQuad_f64_pixels:
  assumes "pixel_quad quad"
  shows "scaleQuad_f64 quad 1 1 None = quad"
proof -
  obtain p0 p1 p2 p3 where q: "quad = (p0, p1, p2, p3)" by (cases quad)
  from assms have px: "pixel (x p0)" "pixel (x p1)" "pixel (x p2)" "pixel (x p3)"
    and py: "pixel (y p0)" "pixel (y p1)" "pixel (y p2)" "pixel (y p3)"
    by (simp_all add: pixel_quad_def q)
  from px obtain a0 a1 a2 a3 where a: "x p0 = of_int a0" "x p1 = of_int a1" "x p2 = of_int a2"
    "x p3 = of_int a3" and ab: "\<bar>a0\<bar> < 2 ^ 50" "\<bar>a1\<bar> < 2 ^ 50" "\<bar>a2\<bar> < 2 ^ 50" "\<bar>a3\<bar> < 2 ^ 50"
    by (elim pixelE) blast
  from py obtain b0 b1 b2 b3 where b: "y p0 = of_int b0" "y p1 = of_int b1" "y p2 = of_int b2"
    "y p3 = of_int b3" and bb: "\<bar>b0\<bar> < 2 ^ 50" "\<bar>b1\<bar> < 2 ^ 50" "\<bar>b2\<bar> < 2 ^ 50" "\<bar>b3\<bar> < 2 ^ 50"
    by (elim pixelE) blast
  note cx = int_centre[OF ab]
  note cy = int_centre[OF bb]
  have c: "getQuadCenter_f64 (p0, p1, p2, p3)
             = \<lparr>x = of_int (a0 + a1 + a2 + a3) / 4, y = of_int (b0 + b1 + b2 + b3) / 4\<rparr>"
    unfolding getQuadCenter_f64_unfold a b cx(1) cy(1) ..
  have "scaleQuad_f64 (p0, p1, p2, p3) 1 1 None
          = (\<lparr>x = x p0, y = y p0\<rparr>, \<lparr>x = x p1, y = y p1\<rparr>, \<lparr>x = x p2, y = y p2\<rparr>, \<lparr>x = x p3, y = y p3\<rparr>)"
    unfolding scaleQuad_f64_def c
    by (simp add: Let_def a b int_corner[OF ab(1) cx(2)] int_corner[OF ab(2) cx(2)]
        int_corner[OF ab(3) cx(2)] int_corner[OF ab(4) cx(2)]
        int_corner[OF bb(1) cy(2)] int_corner[OF bb(2) cy(2)]
        int_corner[OF bb(3) cy(2)] int_corner[OF bb(4) cy(2)] del: of_int_add)
  then show ?thesis by (simp add: q)
qed

lemma rect_centre_pixels:
  assumes "pixel x0" "pixel w"
  shows "fdiv (fadd (fadd (fadd (fadd 0 x0) (fadd x0 w)) (fadd x0 w)) x0) 4 = x0 + w / 2"
proof -
  from assms obtain a b where a: "x0 = of_int a" "w = of_int b"
    and ab: "\<bar>a\<bar> < 2 ^ 50" "\<bar>b\<bar> < 2 ^ 50"
    by (elim pixelE) blast
  from ab have bd: "\<bar>a + b\<bar> < 2 ^ 53" "\<bar>a\<bar> < 2 ^ 53" "\<bar>a + (a + b)\<bar> < 2 ^ 53"
    "\<bar>a + (a + b) + (a + b)\<bar> < 2 ^ 53" "\<bar>a + (a + b) + (a + b) + a\<bar> < 2 ^ 53" by simp_all
  show ?thesis
    unfolding a fadd_int[OF bd(1)] fadd_zero_int[OF bd(2)] fadd_int[OF bd(3)] fadd_int[OF bd(4)]
      fadd_int[OF bd(5)] fdiv4_int[OF bd(5)]
    by simp
qed

lemma rect_centre_pixels_y:
  assumes "pixel y0" "pixel h"
  shows "fdiv (fadd (fadd (fadd (fadd 0 y0) y0) (fadd y0 h)) (fadd y0 h)) 4 = y0 + h / 2"
proof -
  from assms obtain a b where a: "y0 = of_int a" "h = of_int b"
    and ab: "\<bar>a\<bar> < 2 ^ 50" "\<bar>b\<bar> < 2 ^ 50"
    by (elim pixelE) blast
  from ab have bd: "\<bar>a + b\<bar> < 2 ^ 53" "\<bar>a\<bar> < 2 ^ 53" "\<bar>a + a\<bar> < 2 ^ 53"
    "\<bar>a + a + (a + b)\<bar> < 2 ^ 53" "\<bar>a + a + (a + b) + (a + b)\<bar> < 2 ^ 53" by simp_all
  show ?thesis
    unfolding a fadd_int[OF bd(1)] fadd_zero_int[OF bd(2)] fadd_int[OF bd(3)] fadd_int[OF bd(4)]
      fadd_int[OF bd(5)] fdiv4_int[OF bd(5)]
    by simp
qed

lemma rect_centroid_pixels:
  assumes "pixel x0" "pixel y0" "pixel w" "pixel h"
  shows "getQuadCenter_f64 (quadFromRect_f64 x0 y0 w h) = \<lparr>x = x0 + w / 2, y = y0 + h / 2\<rparr>"
  unfolding quadFromRect_f64_def getQuadCenter_f64_unfold
  by (simp add: rect_centre_pixels[OF assms(1,3)] rect_centre_pixels_y[OF assms(2,4)])

text \<open>The roundings along the two computations on the quads above and on two rectangles.\<close>

lemma dyadic_quad_steps:
  "fadd 0 (1 / 1152921504606846976) = 1 / 1152921504606846976"
  "fadd 0 0 = 0"
  "fadd (1 / 1152921504606846976) 4 = 4"
  "fadd 4 4 = 8"
  "fadd 0 4 = 4"
  "fadd 8 0 = 8"
  "fdiv 8 4 = 2"
  "fsub (1 / 1152921504606846976) 2 = - 2"
  "fmul (- 2) 1 = - 2"
  "fadd 2 (- 2) = 0"
  "fsub 0 2 = - 2"
  "fsub 4 2 = 2"
  "fmul 2 1 = 2"
  "fadd 2 2 = 4"
proof -
  show "fadd 0 (1 / 1152921504606846976) = 1 / 1152921504606846976"
    unfolding fadd_def
    by (subst binary64_eval[where e = "-60"]) (simp_all add: round_half_even_def Let_def pow2_def)
  show "fadd 0 0 = 0"
    by (simp add: fadd_def binary64_def)
  show "fadd (1 / 1152921504606846976) 4 = 4"
    unfolding fadd_def
    by (subst binary64_eval[where e = "2"]) (simp_all add: round_half_even_def Let_def pow2_def)
  show "fadd 4 4 = 8"
    unfolding fadd_def
    by (subst binary64_eval[where e = "3"]) (simp_all add: round_half_even_def Let_def pow2_def)
  show "fadd 0 4 = 4"
    unfolding fadd_def
    by (subst binary64_eval[where e = "2"]) (simp_all add: round_half_even_def Let_def pow2_def)
  show "fadd 8 0 = 8"
    unfolding fadd_def
    by (subst binary64_eval[where e = "3"]) (simp_all add: round_half_even_def Let_def pow2_def)
  show "fdiv 8 4 = 2"
    unfolding fdiv_def
    by (subst binary64_eval[where e = "1"]) (simp_all add: round_half_even_def Let_def pow2_def)
  show "fsub (1 / 1152921504606846976) 2 = - 2"
    unfolding fsub_def
    by (subst binary64_eval[where e = "0"]) (simp_all add: round_half_even_def Let_def pow2_def)
  show "fmul (- 2) 1 = - 2"
    unfolding fmul_def
    by (subst binary64_eval[where e = "1"]) (simp_all add: round_half_even_def Let_def pow2_def)
  show "fadd 2 (- 2) = 0"
    by (simp add: fadd_def binary64_def)
  show "fsub 0 2 = - 2"
    unfolding fsub_def
    by (subst binary64_eval[where e = "1"]) (simp_all add: round_half_even_def Let_def pow2_def)
  show "fsub 4 2 = 2"
    unfolding fsub_def
    by (subst binary64_eval[where e = "1"]) (simp_all add: round_half_even_def Let_def pow2_def)
  show "fmul 2 1 = 2"
    unfolding fmul_def
    by (subst binary64_eval[where e = "1"]) (simp_all add: round_half_even_def Let_def pow2_def)
  show "fadd 2 2 = 4"
    unfolding fadd_def
    by (subst binary64_eval[where e = "2"]) (simp_all add: round_half_even_def Let_def pow2_def)
qed

lemma tenth_quad_steps:
  "fadd 0 (3602879701896397 / 36028797018963968) = 3602879701896397 / 36028797018963968"
  "fadd 0 0 = 0"
  "fadd (3602879701896397 / 36028797018963968) 1 = 2476979795053773 / 2251799813685248"
  "fadd (2476979795053773 / 2251799813685248) 1 = 4728779608739021 / 2251799813685248"
  "fadd 0 1 = 1"
  "fadd (4728779608739021 / 2251799813685248) 0 = 4728779608739021 / 2251799813685248"
  "fadd 1 1 = 2"
  "fdiv (4728779608739021 / 2251799813685248) 4 = 4728779608739021 / 9007199254740992"
  "fdiv 2 4 = 1 / 2"
  "fsub (3602879701896397 / 36028797018963968) (4728779608739021 / 9007199254740992) = - (1914029841632461 / 4503599627370496)"
  "fmul (- (1914029841632461 / 4503599627370496)) 1 = - (1914029841632461 / 4503599627370496)"
  "fadd (4728779608739021 / 9007199254740992) (- (1914029841632461 / 4503599627370496)) = 900719925474099 / 9007199254740992"
  "fsub 0 (1 / 2) = - (1 / 2)"
  "fmul (- (1 / 2)) 1 = - (1 / 2)"
  "fadd (1 / 2) (- (1 / 2)) = 0"
  "fsub 1 (4728779608739021 / 9007199254740992) = 4278419646001971 / 9007199254740992"
  "fmul (4278419646001971 / 9007199254740992) 1 = 4278419646001971 / 9007199254740992"
  "fadd (4728779608739021 / 9007199254740992) (4278419646001971 / 9007199254740992) = 1"
  "fsub 1 (1 / 2) = 1 / 2"
  "fmul (1 / 2) 1 = 1 / 2"
  "fadd (1 / 2) (1 / 2) = 1"
  "fsub 0 (4728779608739021 / 9007199254740992) = - (4728779608739021 / 9007199254740992)"
  "fmul (- (4728779608739021 / 9007199254740992)) 1 = - (4728779608739021 / 9007199254740992)"
  "fadd (4728779608739021 / 9007199254740992) (- (4728779608739021 / 9007199254740992)) = 0"
proof -
  show "fadd 0 (3602879701896397 / 36028797018963968) = 3602879701896397 / 36028797018963968"
    unfolding fadd_def
    by (subst binary64_eval[where e = "-4"]) (simp_all add: round_half_even_def Let_def pow2_def)
  show "fadd 0 0 = 0"
    by (simp add: fadd_def binary64_def)
  show "fadd (3602879701896397 / 36028797018963968) 1 = 2476979795053773 / 2251799813685248"
    unfolding fadd_def
    by (subst binary64_eval[where e = "0"]) (simp_all add: round_half_even_def Let_def pow2_def)
  show "fadd (2476979795053773 / 2251799813685248) 1 = 4728779608739021 / 2251799813685248"
    unfolding fadd_def
    by (subst binary64_eval[where e = "1"]) (simp_all add: round_half_even_def Let_def pow2_def)
  show "fadd 0 1 = 1"
    unfolding fadd_def
    by (subst binary64_eval[where e = "0"]) (simp_all add: round_half_even_def Let_def pow2_def)
  show "fadd (4728779608739021 / 2251799813685248) 0 = 4728779608739021 / 2251799813685248"
    unfolding fadd_def
    by (subst binary64_eval[where e = "1"]) (simp_all add: round_half_even_def Let_def pow2_def)
  show "fadd 1 1 = 2"
    unfolding fadd_def
    by (subst binary64_eval[where e = "1"]) (simp_all add: round_half_even_def Let_def pow2_def)
  show "fdiv (4728779608739021 / 2251799813685248) 4 = 4728779608739021 / 9007199254740992"
    unfolding fdiv_def
    by (subst binary64_eval[where e = "-1"]) (simp_all add: round_half_even_def Let_def pow2_def)
  show "fdiv 2 4 = 1 / 2"
    unfolding fdiv_def
    by (subst binary64_eval[where e = "-1"]) (simp_all add: round_half_even_def Let_def pow2_def)
  show "fsub (3602879701896397 / 36028797018963968) (4728779608739021 / 9007199254740992) = - (1914029841632461 / 4503599627370496)"
    unfolding fsub_def
    by (subst binary64_eval[where e = "-2"]) (simp_all add: round_half_even_def Let_def pow2_def)
  show "fmul (- (1914029841632461 / 4503599627370496)) 1 = - (1914029841632461 / 4503599627370496)"
    unfolding fmul_def
    by (subst binary64_eval[where e = "-2"]) (simp_all add: round_half_even_def Let_def pow2_def)
  show "fadd (4728779608739021 / 9007199254740992) (- (1914029841632461 / 4503599627370496)) = 900719925474099 / 9007199254740992"
    unfolding fadd_def
    by (subst binary64_eval[where e = "-4"]) (simp_all add: round_half_even_def Let_def pow2_def)
  show "fsub 0 (1 / 2) = - (1 / 2)"
    unfolding fsub_def
    by (subst binary64_eval[where e = "-1"]) (simp_all add: round_half_even_def Let_def pow2_def)
  show "fmul (- (1 / 2)) 1 = - (1 / 2)"
    unfolding fmul_def
    by (subst binary64_eval[where e = "-1"]) (simp_all add: round_half_even_def Let_def pow2_def)
  show "fadd (1 / 2) (- (1 / 2)) = 0"
    by (simp add: fadd_def binary64_def)
  show "fsub 1 (4728779608739021 / 9007199254740992) = 4278419646001971 / 9007199254740992"
    unfolding fsub_def
    by (subst binary64_eval[where e = "-2"]) (simp_all add: round_half_even_def Let_def pow2_def)
  show "fmul (4278419646001971 / 9007199254740992) 1 = 4278419646001971 / 9007199254740992"
    unfolding fmul_def
    by (subst binary64_eval[where e = "-2"]) (simp_all add: round_half_even_def Let_def pow2_def)
  show "fadd (4728779608739021 / 9007199254740992) (4278419646001971 / 9007199254740992) = 1"
    unfolding fadd_def
    by (subst binary64_eval[where e = "0"]) (simp_all add: round_half_even_def Let_def pow2_def)
  show "fsub 1 (1 / 2) = 1 / 2"
    unfolding fsub_def
    by (subst binary64_eval[where e = "-1"]) (simp_all add: round_half_even_def Let_def pow2_def)
  show "fmul (1 / 2) 1 = 1 / 2"
    unfolding fmul_def
    by (subst binary64_eval[where e = "-1"]) (simp_all add: round_half_even_def Let_def pow2_def)
  show "fadd (1 / 2) (1 / 2) = 1"
    unfolding fadd_def
    by (subst binary64_eval[where e = "0"]) (simp_all add: round_half_even_def Let_def pow2_def)
  show "fsub 0 (4728779608739021 / 9007199254740992) = - (4728779608739021 / 9007199254740992)"
    unfolding fsub_def
    by (subst binary64_eval[where e = "-1"]) (simp_all add: round_half_even_def Let_def pow2_def)
  show "fmul (- (4728779608739021 / 9007199254740992)) 1 = - (4728779608739021 / 9007199254740992)"
    unfolding fmul_def
    by (subst binary64_eval[where e = "-1"]) (simp_all add: round_half_even_def Let_def pow2_def)
  show "fadd (4728779608739021 / 9007199254740992) (- (4728779608739021 / 9007199254740992)) = 0"
    by (simp add: fadd_def binary64_def)
qed

lemma dyadic_rect_steps:
  "fadd (- (3 / 36028797018963968)) 2 = 2"
  "fadd 0 1 = 1"
  "fadd 0 (- (3 / 36028797018963968)) = - (3 / 36028797018963968)"
  "fadd 0 0 = 0"
  "fadd 2 2 = 4"
  "fadd 4 (- (3 / 36028797018963968)) = 4"
  "fadd 1 1 = 2"
  "fdiv 4 4 = 1"
  "fdiv 2 4 = 1 / 2"
  "fdiv 2 2 = 1"
  "fadd (- (3 / 36028797018963968)) 1 = 9007199254740991 / 9007199254740992"
  "fdiv 1 2 = 1 / 2"
  "fadd 0 (1 / 2) = 1 / 2"
proof -
  show "fadd (- (3 / 36028797018963968)) 2 = 2"
    unfolding fadd_def
    by (subst binary64_eval[where e = "0"]) (simp_all add: round_half_even_def Let_def pow2_def)
  show "fadd 0 1 = 1"
    unfolding fadd_def
    by (subst binary64_eval[where e = "0"]) (simp_all add: round_half_even_def Let_def pow2_def)
  show "fadd 0 (- (3 / 36028797018963968)) = - (3 / 36028797018963968)"
    unfolding fadd_def
    by (subst binary64_eval[where e = "-54"]) (simp_all add: round_half_even_def Let_def pow2_def)
  show "fadd 0 0 = 0"
    by (simp add: fadd_def binary64_def)
  show "fadd 2 2 = 4"
    unfolding fadd_def
    by (subst binary64_eval[where e = "2"]) (simp_all add: round_half_even_def Let_def pow2_def)
  show "fadd 4 (- (3 / 36028797018963968)) = 4"
    unfolding fadd_def
    by (subst binary64_eval[where e = "1"]) (simp_all add: round_half_even_def Let_def pow2_def)
  show "fadd 1 1 = 2"
    unfolding fadd_def
    by (subst binary64_eval[where e = "1"]) (simp_all add: round_half_even_def Let_def pow2_def)
  show "fdiv 4 4 = 1"
    unfolding fdiv_def
    by (subst binary64_eval[where e = "0"]) (simp_all add: round_half_even_def Let_def pow2_def)
  show "fdiv 2 4 = 1 / 2"
    unfolding fdiv_def
    by (subst binary64_eval[where e = "-1"]) (simp_all add: round_half_even_def Let_def pow2_def)
  show "fdiv 2 2 = 1"
    unfolding fdiv_def
    by (subst binary64_eval[where e = "0"]) (simp_all add: round_half_even_def Let_def pow2_def)
  show "fadd (- (3 / 36028797018963968)) 1 = 9007199254740991 / 9007199254740992"
    unfolding fadd_def
    by (subst binary64_eval[where e = "-1"]) (simp_all add: round_half_even_def Let_def pow2_def)
  show "fdiv 1 2 = 1 / 2"
    unfolding fdiv_def
    by (subst binary64_eval[where e = "-1"]) (simp_all add: round_half_even_def Let_def pow2_def)
  show "fadd 0 (1 / 2) = 1 / 2"
    unfolding fadd_def
    by (subst binary64_eval[where e = "-1"]) (simp_all add: round_half_even_def Let_def pow2_def)
qed

lemma tenth_rect_steps:
  "fadd (3602879701896397 / 36028797018963968) 1 = 2476979795053773 / 2251799813685248"
  "fadd 0 1 = 1"
  "fadd 0 (3602879701896397 / 36028797018963968) = 3602879701896397 / 36028797018963968"
  "fadd 0 0 = 0"
  "fadd (3602879701896397 / 36028797018963968) (2476979795053773 / 2251799813685248) = 1351079888211149 / 1125899906842624"
  "fadd (1351079888211149 / 1125899906842624) (2476979795053773 / 2251799813685248) = 5179139571476071 / 2251799813685248"
  "fadd (5179139571476071 / 2251799813685248) (3602879701896397 / 36028797018963968) = 1351079888211149 / 562949953421312"
  "fadd 1 1 = 2"
  "fdiv (1351079888211149 / 562949953421312) 4 = 1351079888211149 / 2251799813685248"
  "fdiv 2 4 = 1 / 2"
  "fdiv 1 2 = 1 / 2"
  "fadd (3602879701896397 / 36028797018963968) (1 / 2) = 5404319552844595 / 9007199254740992"
  "fadd 0 (1 / 2) = 1 / 2"
proof -
  show "fadd (3602879701896397 / 36028797018963968) 1 = 2476979795053773 / 2251799813685248"
    unfolding fadd_def
    by (subst binary64_eval[where e = "0"]) (simp_all add: round_half_even_def Let_def pow2_def)
  show "fadd 0 1 = 1"
    unfolding fadd_def
    by (subst binary64_eval[where e = "0"]) (simp_all add: round_half_even_def Let_def pow2_def)
  show "fadd 0 (3602879701896397 / 36028797018963968) = 3602879701896397 / 36028797018963968"
    unfolding fadd_def
    by (subst binary64_eval[where e = "-4"]) (simp_all add: round_half_even_def Let_def pow2_def)
  show "fadd 0 0 = 0"
    by (simp add: fadd_def binary64_def)
  show "fadd (3602879701896397 / 36028797018963968) (2476979795053773 / 2251799813685248) = 1351079888211149 / 1125899906842624"
    unfolding fadd_def
    by (subst binary64_eval[where e = "0"]) (simp_all add: round_half_even_def Let_def pow2_def)
  show "fadd (1351079888211149 / 1125899906842624) (2476979795053773 / 2251799813685248) = 5179139571476071 / 2251799813685248"
    unfolding fadd_def
    by (subst binary64_eval[where e = "1"]) (simp_all add: round_half_even_def Let_def pow2_def)
  show "fadd (5179139571476071 / 2251799813685248) (3602879701896397 / 36028797018963968) = 1351079888211149 / 562949953421312"
    unfolding fadd_def
    by (subst binary64_eval[where e = "1"]) (simp_all add: round_half_even_def Let_def pow2_def)
  show "fadd 1 1 = 2"
    unfolding fadd_def
    by (subst binary64_eval[where e = "1"]) (simp_all add: round_half_even_def Let_def pow2_def)
  show "fdiv (1351079888211149 / 562949953421312) 4 = 1351079888211149 / 2251799813685248"
    unfolding fdiv_def
    by (subst binary64_eval[where e = "-1"]) (simp_all add: round_half_even_def Let_def pow2_def)
  show "fdiv 2 4 = 1 / 2"
    unfolding fdiv_def
    by (subst binary64_eval[where e = "-1"]) (simp_all add: round_half_even_def Let_def pow2_def)
  show "fdiv 1 2 = 1 / 2"
    unfolding fdiv_def
    by (subst binary64_eval[where e = "-1"]) (simp_all add: round_half_even_def Let_def pow2_def)
  show "fadd (3602879701896397 / 36028797018963968) (1 / 2) = 5404319552844595 / 9007199254740992"
    unfolding fadd_def
    by (subst binary64_eval[where e = "-1"]) (simp_all add: round_half_even_def Let_def pow2_def)
  show "fadd 0 (1 / 2) = 1 / 2"
    unfolding fadd_def
    by (subst binary64_eval[where e = "-1"]) (simp_all add: round_half_even_def Let_def pow2_def)
qed

lemma dyadic_quad_result:
  "scaleQuad_f64 dyadic_quad 1 1 None
     = (\<lparr>x = 0, y = 0\<rparr>, \<lparr>x = 4, y = 0\<rparr>, \<lparr>x = 4, y = 4\<rparr>, \<lparr>x = 0, y = 4\<rparr>)"
  unfolding scaleQuad_f64_def getQuadCenter_f64_unfold
  by (simp add: Let_def dyadic_quad_steps)

lemma tenth_quad_result:
  "scaleQuad_f64 tenth_quad 1 1 None
     = (\<lparr>x = 900719925474099 / 9007199254740992, y = 0\<rparr>, \<lparr>x = 1, y = 0\<rparr>, \<lparr>x = 1, y = 1\<rparr>,
        \<lparr>x = 0, y = 1\<rparr>)"
  unfolding scaleQuad_f64_def getQuadCenter_f64_unfold
  by (simp add: Let_def tenth_quad_steps)

lemma dyadic_rect_result:
  "getQuadCenter_f64 (quadFromRect_f64 (- 3 / 2 ^ 55) 0 2 1) = \<lparr>x = 1, y = 1 / 2\<rparr>"
  "fadd (- 3 / 2 ^ 55) (fdiv 2 2) = 1 - 1 / 2 ^ 53"
  unfolding quadFromRect_f64_def getQuadCenter_f64_unfold
  by (simp_all add: dyadic_rect_steps)

lemma tenth_rect_result:
  "getQuadCenter_f64 (quadFromRect_f64 tenth 0 1 1)
     = \<lparr>x = 1351079888211149 / 2251799813685248, y = 1 / 2\<rparr>"
  "fadd tenth (fdiv 1 2) = 5404319552844595 / 9007199254740992"
  unfolding quadFromRect_f64_def getQuadCenter_f64_unfold
  by (simp_all add: tenth_rect_steps)


section \<open>Properties of the perspective-mapping core\<close>

subsection \<open>Homography solver\<close>




text \<open>
  C4.  \<open>computeHomographyRectToQuad\<close> fails with \<open>InvalidDimensions\<close> exactly when the width or
  the height is not positive, whatever the quad is; with positive dimensions it fails
  with \<open>InvalidQuad\<close> carrying a reason exactly when \<open>validateQuad\<close> rejects the quad with
  that reason at the default epsilon.
\<close>

theorem homography_precondition_errors:
  "(computeHomographyRectToQuad proc width height quad = Inl InvalidDimensions
      \<longleftrightarrow> width \<le> 0 \<or> height \<le> 0)
   \<and> (0 < width \<and> 0 < height \<longrightarrow>
        (\<forall>reason. computeHomographyRectToQuad proc width height quad = Inl (InvalidQuad reason)
            \<longleftrightarrow> validateQuad quad DEFAULT_EPSILON = Rejected reason))"
proof (cases "width \<le> 0 \<or> height \<le> 0")
  case True
  from compute_invalid(1)[OF True] True show ?thesis by auto
next
  case False
  then have pos: "0 < width" "0 < height" by simp_all
  show ?thesis
  proof (cases "validateQuad quad DEFAULT_EPSILON")
    case (Rejected r)
    from compute_invalid(2)[OF pos Rejected] Rejected pos error_distinct
    show ?thesis by auto
  next
    case Ok
    from compute_valid[OF Ok pos] obtain M where
      "computeHomographyRectToQuad proc width height quad = Inr M
       \<or> computeHomographyRectToQuad proc width height quad = Inl DegenerateProjection"
      by (metis (full_types))
    with Ok pos error_distinct show ?thesis by auto
  qed
qed

text \<open>
  The theorem at concrete inputs: a zero width gives \<open>InvalidDimensions\<close> even for a quad
  with two equal corners, and that quad gives \<open>InvalidQuad\<close> with the duplicate-point reason
  when the dimensions are positive.
\<close>

theorem homography_precondition_errors_witness:
  "computeHomographyRectToQuad None 0 50
      (\<lparr>x = 0, y = 0\<rparr>, \<lparr>x = 1, y = 0\<rparr>, \<lparr>x = 1, y = 0\<rparr>, \<lparr>x = 0, y = 1\<rparr>) = Inl InvalidDimensions
   \<and> (0::real) < 100 \<and> (0::real) < 50
   \<and> validateQuad (\<lparr>x = 0, y = 0\<rparr>, \<lparr>x = 1, y = 0\<rparr>, \<lparr>x = 1, y = 0\<rparr>, \<lparr>x = 0, y = 1\<rparr>) DEFAULT_EPSILON
        = Rejected DuplicatePoint
   \<and> computeHomographyRectToQuad None 100 50
      (\<lparr>x = 0, y = 0\<rparr>, \<lparr>x = 1, y = 0\<rparr>, \<lparr>x = 1, y = 0\<rparr>, \<lparr>x = 0, y = 1\<rparr>)
        = Inl (InvalidQuad DuplicatePoint)"
proof -
  let ?q = "(\<lparr>x = 0, y = 0\<rparr>, \<lparr>x = 1, y = 0\<rparr>, \<lparr>x = 1, y = 0\<rparr>, \<lparr>x = 0, y = 1\<rparr>) :: Quad"
  have v: "validateQuad ?q DEFAULT_EPSILON = Rejected DuplicatePoint"
    by (simp add: validateQuad_def hasDuplicatePoints_unfold DuplicatePoint_def)
  have pos: "(0::real) < 100" "(0::real) < 50" by simp_all
  from homography_precondition_errors[of None 0 50 ?q]
  have a: "computeHomographyRectToQuad None 0 50 ?q = Inl InvalidDimensions" by simp
  from homography_precondition_errors[of None 100 50 ?q] pos v
  have b: "computeHomographyRectToQuad None 100 50 ?q = Inl (InvalidQuad DuplicatePoint)"
    by blast
  from a b v pos show ?thesis by blast
qed




subsection \<open>Point projector and render-matrix embedder\<close>


text \<open>
  C2.  Whenever \<open>applyHomography H p\<close> succeeds, multiplying the 4x4 matrix
  \<open>homographyToCssMatrix3d H\<close> with the homogeneous point \<open>(p.x, p.y, 0, 1)\<close> gives a
  non-zero w-component and a z-component of zero, and dividing the resulting x and y by
  that w-component yields the same point.
\<close>

theorem css_matrix_roundtrip:
  assumes "applyHomography H p = Inr r"
  shows "perspective_divide (m4_apply (homographyToCssMatrix3d H) (x p, y p, 0, 1)) = r
     \<and> snd (snd (snd (m4_apply (homographyToCssMatrix3d H) (x p, y p, 0, 1)))) \<noteq> 0
     \<and> fst (snd (snd (m4_apply (homographyToCssMatrix3d H) (x p, y p, 0, 1)))) = 0"
  using assms
  by (cases H)
    (auto simp add: m4_apply_def m4_entry_def perspective_divide_def Let_def W_EPSILON_def
      split: if_splits)

text \<open>
  The theorem at the scenario matrix and the rectangle corner \<open>(100, 50)\<close>, which projects
  to \<open>(200, 110)\<close>.
\<close>

theorem css_matrix_roundtrip_witness:
  "applyHomography scenario_matrix \<lparr>x = 100, y = 50\<rparr> = Inr \<lparr>x = 200, y = 110\<rparr>
   \<and> perspective_divide (m4_apply (homographyToCssMatrix3d scenario_matrix) (100, 50, 0, 1))
       = \<lparr>x = 200, y = 110\<rparr>"
proof -
  have a: "applyHomography scenario_matrix \<lparr>x = 100, y = 50\<rparr> = Inr \<lparr>x = 200, y = 110\<rparr>"
    by (rule scenario_corners(3))
  from css_matrix_roundtrip[OF a]
  have "perspective_divide (m4_apply (homographyToCssMatrix3d scenario_matrix) (100, 50, 0, 1))
       = \<lparr>x = 200, y = 110\<rparr>"
    by simp
  with a show ?thesis by blast
qed

subsection \<open>Quad validator\<close>



subsection \<open>Quad utilities\<close>

text \<open>
  C6.  Scaling a quad by the factors 1 and 1 about its centroid, the default origin,
  returns the quad itself, corner for corner: in exact arithmetic for every quad, valid or
  not, and in double precision for every quad whose coordinates are integers of magnitude
  below \<open>2^50\<close>, where no operation of \<open>getQuadCenter\<close> and \<open>scaleQuad\<close> rounds.
\<close>

theorem scaleQuad_identity:
  "scaleQuad quad 1 1 None = quad
   \<and> (pixel_quad quad \<longrightarrow> scaleQuad_f64 quad 1 1 None = quad)"
  using scaleQuad_f64_pixels by (cases quad) (simp add: scaleQuad_def Let_def)

text \<open>The theorem at the quad of the specification's scenario.\<close>

theorem scaleQuad_identity_witness:
  "pixel_quad scenario_quad \<and> scaleQuad_f64 scenario_quad 1 1 None = scenario_quad"
  using scaleQuad_identity[of scenario_quad] by (simp add: pixel_quad_def pixel_def)

text \<open>
  The claim as written, equality for every valid quad, fails in double precision once a
  coordinate is not an integer.  For the quad \<open>[(2^-60,0),(4,0),(4,4),(0,4)]\<close> the centre
  sums the x-coordinates in turn: \<open>2^-60 + 4\<close> rounds to \<open>4\<close> (doubles next to 4 are
  \<open>2^-50\<close> apart), so the sum is \<open>8\<close> and the centre \<open>(2,2)\<close>; for corner 0 the offset
  \<open>2^-60 - 2\<close> rounds to \<open>-2\<close>, and \<open>2 + (-2) * 1 = 0\<close>: the corner \<open>(2^-60, 0)\<close> is
  returned as \<open>(0,0)\<close>.  For the quad \<open>[(0.1,0),(1,0),(1,1),(0,1)]\<close> the centre is
  \<open>(0.525, 0.5)\<close> and corner 0 is returned with \<open>x = 0.09999999999999998\<close>.  The validator
  accepts both quads.
\<close>

theorem scaleQuad_rounds_corner:
  "validateQuad dyadic_quad DEFAULT_EPSILON = Ok
   \<and> scaleQuad_f64 dyadic_quad 1 1 None
        = (\<lparr>x = 0, y = 0\<rparr>, \<lparr>x = 4, y = 0\<rparr>, \<lparr>x = 4, y = 4\<rparr>, \<lparr>x = 0, y = 4\<rparr>)
   \<and> scaleQuad_f64 dyadic_quad 1 1 None \<noteq> dyadic_quad
   \<and> validateQuad tenth_quad DEFAULT_EPSILON = Ok
   \<and> scaleQuad_f64 tenth_quad 1 1 None
        = (\<lparr>x = 900719925474099 / 9007199254740992, y = 0\<rparr>, \<lparr>x = 1, y = 0\<rparr>,
           \<lparr>x = 1, y = 1\<rparr>, \<lparr>x = 0, y = 1\<rparr>)
   \<and> scaleQuad_f64 tenth_quad 1 1 None \<noteq> tenth_quad"
  unfolding dyadic_quad_result tenth_quad_result
  by (simp add: validate_eval)

text \<open>
  C8.  The centroid of the rectangle quad with corners \<open>(x,y)\<close>, \<open>(x+w,y)\<close>, \<open>(x+w,y+h)\<close>,
  \<open>(x,y+h)\<close>, the arithmetic mean of the four corners, is the point \<open>(x + w/2, y + h/2)\<close>:
  in exact arithmetic for all \<open>x\<close>, \<open>y\<close>, \<open>w\<close>, \<open>h\<close>, and in double precision when the four
  are integers of magnitude below \<open>2^50\<close>.
\<close>

theorem rect_centroid:
  "getQuadCenter (quadFromRect x0 y0 w h) = \<lparr>x = x0 + w / 2, y = y0 + h / 2\<rparr>
   \<and> quadFromRect x0 y0 w h
       = (\<lparr>x = x0, y = y0\<rparr>, \<lparr>x = x0 + w, y = y0\<rparr>, \<lparr>x = x0 + w, y = y0 + h\<rparr>, \<lparr>x = x0, y = y0 + h\<rparr>)
   \<and> getQuadCenter (p0, p1, p2, p3)
       = \<lparr>x = (x p0 + x p1 + x p2 + x p3) / 4, y = (y p0 + y p1 + y p2 + y p3) / 4\<rparr>
   \<and> (pixel x0 \<and> pixel y0 \<and> pixel w \<and> pixel h \<longrightarrow>
        getQuadCenter_f64 (quadFromRect_f64 x0 y0 w h) = \<lparr>x = x0 + w / 2, y = y0 + h / 2\<rparr>)"
  using rect_centroid_pixels[of x0 y0 w h]
  by (simp add: getQuadCenter_def quadFromRect_def Let_def)

text \<open>The theorem at the rectangle of width 100 and height 50 with top-left corner (10,20).\<close>

theorem rect_centroid_witness:
  "pixel 10 \<and> pixel 20 \<and> pixel 100 \<and> pixel 50
   \<and> getQuadCenter_f64 (quadFromRect_f64 10 20 100 50) = \<lparr>x = 60, y = 45\<rparr>"
  using rect_centroid[where ?x0.0 = 10 and ?y0.0 = 20 and w = 100 and h = 50]
  by (simp add: pixel_def)

text \<open>
  The claim as written, for every \<open>x\<close>, \<open>y\<close>, \<open>w\<close>, \<open>h\<close>, fails in double precision.  For
  \<open>x = -3 * 2^-55\<close>, \<open>w = 2\<close> the corner coordinate \<open>x + w\<close> rounds to \<open>2\<close>, the running
  sum of the x-coordinates is \<open>-3 * 2^-55\<close>, \<open>2\<close>, \<open>4\<close>, \<open>4\<close>, and the centroid has \<open>x = 1\<close>,
  whereas \<open>x + w/2\<close> is \<open>1 - 3 * 2^-55\<close> exactly and \<open>1 - 2^-53\<close> after rounding.  For
  \<open>x = 0.1\<close>, \<open>w = 1\<close> the centroid has \<open>x = 0.6000000000000001\<close>, whereas \<open>0.1 + 1/2\<close>
  rounds to \<open>0.6\<close>.
\<close>

theorem rect_centroid_rounds:
  "getQuadCenter_f64 (quadFromRect_f64 (- 3 / 2 ^ 55) 0 2 1) = \<lparr>x = 1, y = 1 / 2\<rparr>
   \<and> (- 3 / 2 ^ 55 + 2 / 2 :: real) \<noteq> 1
   \<and> fadd (- 3 / 2 ^ 55) (fdiv 2 2) = 1 - 1 / 2 ^ 53
   \<and> getQuadCenter_f64 (quadFromRect_f64 tenth 0 1 1)
        = \<lparr>x = 1351079888211149 / 2251799813685248, y = 1 / 2\<rparr>
   \<and> tenth + 1 / 2 \<noteq> 1351079888211149 / 2251799813685248
   \<and> fadd tenth (fdiv 1 2) = 5404319552844595 / 9007199254740992"
  unfolding dyadic_rect_result tenth_rect_result
  by simp






end
